theory Spec2Isabelle
  imports Complex_Main
begin

section \<open>The animated circles of js/script.js\<close>

text \<open>
  The script keeps, for every container element of the page, a set of circle elements
  that are being animated across it. The embedding below follows the source function by
  function. What the script does to the browser is made explicit state:
  \<^item> DOM elements are object identities (natural numbers); \<open>document.createElement\<close>
    hands out the next unused one;
  \<^item> \<open>clientWidth\<close> and \<open>clientHeight\<close> of a container are read from the current
    layout; a property that is missing (\<open>undefined\<close>) is \<open>None\<close>;
  \<^item> \<open>Math.random()\<close> reads the next number of a sequence \<open>rnd\<close> of reals, each of
    which is meant to lie in \<open>[0, 1)\<close>, as ECMAScript specifies; arithmetic on the
    numbers is exact;
  \<^item> the \<open>Map\<close> from containers to \<open>Set\<close>s of circles is a partial function to
    lists without repetition, in insertion order (the order \<open>Set.forEach\<close> visits);
  \<^item> the console is a list of messages, and the sequence of calls into the DOM, the
    \<open>Map\<close> and the animation engine is recorded in call order.
\<close>

subsection \<open>ANIMATION_CONFIG\<close>

definition maxCirclesPerContainer :: int where
  "maxCirclesPerContainer = 5"

definition circleSizeRange_min :: int where
  "circleSizeRange_min = 10"

definition circleSizeRange_max :: int where
  "circleSizeRange_max = 100"

definition animationDurationRange_min :: int where
  "animationDurationRange_min = 5"

definition animationDurationRange_max :: int where
  "animationDurationRange_max = 10"

definition offsetMultiplier :: int where
  "offsetMultiplier = 2"

subsection \<open>The browser state the script reads and writes\<close>

type_synonym container = nat
type_synonym circle = nat

text \<open>A position \<open>{ x, y }\<close> is the pair \<open>(x, y)\<close>.\<close>

type_synonym position = "int \<times> int"

record element =
  clientWidth :: "int option"
  clientHeight :: "int option"

record style =
  style_width :: int
  style_height :: int
  style_left :: int
  style_top :: int

text \<open>
  A running animation: its two keyframes, its duration in milliseconds, and the
  container captured by its \<open>onfinish\<close> handler (\<open>None\<close> while no handler is set).
\<close>

record animation =
  keyframe_from :: position
  keyframe_to :: position
  duration :: int
  onfinish :: "container option"

datatype message = Warn string | Error string

datatype call =
    CreateElement circle
  | AssignStyle circle
  | MapSet container
  | SetAdd container circle
  | Animate circle
  | SetOnfinish circle
  | AppendChild container circle
  | Remove circle
  | SetDelete container circle

record state =
  layout :: "container \<Rightarrow> element"
  activeCircles :: "container \<rightharpoonup> circle list"
  parentOf :: "circle \<rightharpoonup> container"
  styles :: "circle \<rightharpoonup> style"
  animations :: "circle \<rightharpoonup> animation"
  nextElement :: nat
  draws :: nat
  console :: "message list"
  calls :: "call list"

text \<open>JavaScript truthiness of a numeric property: \<open>undefined\<close> and \<open>0\<close> are falsy.\<close>

fun truthy :: "int option \<Rightarrow> bool" where
  "truthy None = False"
| "truthy (Some n) = (n \<noteq> 0)"

text \<open>\<open>Set.prototype.add\<close> and \<open>Set.prototype.delete\<close> on the insertion-ordered list.\<close>

definition set_add :: "circle \<Rightarrow> circle list \<Rightarrow> circle list" where
  "set_add c cs = (if c \<in> set cs then cs else cs @ [c])"

definition set_delete :: "circle \<Rightarrow> circle list \<Rightarrow> circle list" where
  "set_delete c cs = removeAll c cs"

text \<open>The number of circles tracked for a container (0 when the \<open>Map\<close> has no entry).\<close>

definition active_count :: "state \<Rightarrow> container \<Rightarrow> nat" where
  "active_count s k = (case activeCircles s k of None \<Rightarrow> 0 | Some cs \<Rightarrow> length cs)"

subsection \<open>getRandomInRange\<close>

definition Math_random :: "(nat \<Rightarrow> real) \<Rightarrow> state \<Rightarrow> real \<times> state" where
  "Math_random rnd s = (rnd (draws s), s\<lparr>draws := Suc (draws s)\<rparr>)"

text \<open>\<open>Math.floor(Math.random() * (max - min + 1)) + min\<close>\<close>

definition getRandomInRange :: "(nat \<Rightarrow> real) \<Rightarrow> int \<Rightarrow> int \<Rightarrow> state \<Rightarrow> int \<times> state" where
  "getRandomInRange rnd mn mx s =
     (case Math_random rnd s of
        (r, s') \<Rightarrow> (\<lfloor>r * of_int (mx - mn + 1)\<rfloor> + mn, s'))"

subsection \<open>getRandomPosition\<close>

definition console_warn :: "string \<Rightarrow> state \<Rightarrow> state" where
  "console_warn m s = s\<lparr>console := console s @ [Warn m]\<rparr>"

definition console_error :: "string \<Rightarrow> state \<Rightarrow> state" where
  "console_error m s = s\<lparr>console := console s @ [Error m]\<rparr>"

text \<open>
  The guard \<open>!container || !container.clientWidth || !container.clientHeight\<close>, then
  the draw of the edge and the \<open>switch\<close> with its four cases and its default.
\<close>

definition invalid_dimensions :: "state \<Rightarrow> container option \<Rightarrow> bool" where
  "invalid_dimensions s containerElement =
     (case containerElement of
        None \<Rightarrow> True
      | Some k \<Rightarrow> \<not> truthy (clientWidth (layout s k)) \<or> \<not> truthy (clientHeight (layout s k)))"

definition getRandomPosition ::
  "(nat \<Rightarrow> real) \<Rightarrow> container option \<Rightarrow> int \<Rightarrow> state \<Rightarrow> position \<times> state" where
  "getRandomPosition rnd containerElement size' s =
     (if invalid_dimensions s containerElement
      then ((0, 0), console_warn ''Invalid container dimensions'' s)
      else
        (case Math_random rnd s of
           (r, s1) \<Rightarrow>
             let edge = \<lfloor>r * 4\<rfloor>;
                 w = the (clientWidth (layout s (the containerElement)));
                 h = the (clientHeight (layout s (the containerElement)));
                 maxX = w - size';
                 maxY = h - size';
                 offset = size' * offsetMultiplier
             in if edge = 0 then
                  (case getRandomInRange rnd 0 maxX s1 of (v, s2) \<Rightarrow> ((v, - offset), s2))
                else if edge = 1 then
                  (case getRandomInRange rnd 0 maxY s1 of (v, s2) \<Rightarrow> ((w + offset, v), s2))
                else if edge = 2 then
                  (case getRandomInRange rnd 0 maxX s1 of (v, s2) \<Rightarrow> ((v, h + offset), s2))
                else if edge = 3 then
                  (case getRandomInRange rnd 0 maxY s1 of (v, s2) \<Rightarrow> ((- offset, v), s2))
                else ((0, 0), s1)))"

subsection \<open>createRandomCircle\<close>

definition createElement :: "state \<Rightarrow> circle \<times> state" where
  "createElement s =
     (nextElement s,
      s\<lparr>nextElement := Suc (nextElement s), calls := calls s @ [CreateElement (nextElement s)]\<rparr>)"

definition assignStyle :: "circle \<Rightarrow> style \<Rightarrow> state \<Rightarrow> state" where
  "assignStyle c st s = s\<lparr>styles := (styles s)(c \<mapsto> st), calls := calls s @ [AssignStyle c]\<rparr>"

text \<open>\<open>if (!activeCircles.has(k)) activeCircles.set(k, new Set())\<close>\<close>

definition ensureSet :: "container \<Rightarrow> state \<Rightarrow> state" where
  "ensureSet k s =
     (if activeCircles s k = None
      then s\<lparr>activeCircles := (activeCircles s)(k \<mapsto> []), calls := calls s @ [MapSet k]\<rparr>
      else s)"

text \<open>\<open>activeCircles.get(k).add(c)\<close>, called when the entry exists.\<close>

definition trackCircle :: "container \<Rightarrow> circle \<Rightarrow> state \<Rightarrow> state" where
  "trackCircle k c s =
     s\<lparr>activeCircles := (activeCircles s)(k \<mapsto> set_add c (the (activeCircles s k))),
       calls := calls s @ [SetAdd k c]\<rparr>"

definition animate :: "circle \<Rightarrow> position \<Rightarrow> position \<Rightarrow> int \<Rightarrow> state \<Rightarrow> state" where
  "animate c p q d s =
     s\<lparr>animations := (animations s)(c \<mapsto>
          \<lparr>keyframe_from = p, keyframe_to = q, duration = d, onfinish = None\<rparr>),
       calls := calls s @ [Animate c]\<rparr>"

definition setOnfinish :: "circle \<Rightarrow> container \<Rightarrow> state \<Rightarrow> state" where
  "setOnfinish c k s =
     s\<lparr>animations := (case animations s c of
                        None \<Rightarrow> animations s
                      | Some a \<Rightarrow> (animations s)(c \<mapsto> a\<lparr>onfinish := Some k\<rparr>)),
       calls := calls s @ [SetOnfinish c]\<rparr>"

definition appendChild :: "container \<Rightarrow> circle \<Rightarrow> state \<Rightarrow> state" where
  "appendChild k c s = s\<lparr>parentOf := (parentOf s)(c \<mapsto> k), calls := calls s @ [AppendChild k c]\<rparr>"

text \<open>
  The population guard \<open>activeCircles.get(k)?.size >= maxCirclesPerContainer\<close>: with no
  entry the left side is \<open>undefined\<close> and the comparison is false.
\<close>

definition at_capacity :: "state \<Rightarrow> container \<Rightarrow> bool" where
  "at_capacity s k =
     (case activeCircles s k of
        None \<Rightarrow> False
      | Some cs \<Rightarrow> maxCirclesPerContainer \<le> int (length cs))"

definition createRandomCircle :: "(nat \<Rightarrow> real) \<Rightarrow> container option \<Rightarrow> state \<Rightarrow> state" where
  "createRandomCircle rnd containerElement s =
     (case containerElement of
        None \<Rightarrow> console_error ''Container element is null or undefined'' s
      | Some k \<Rightarrow>
          if at_capacity s k then s
          else
            (case createElement s of (circleElement, s1) \<Rightarrow>
             case getRandomInRange rnd circleSizeRange_min circleSizeRange_max s1 of (size', s2) \<Rightarrow>
             case getRandomPosition rnd (Some k) size' s2 of (startPosition, s3) \<Rightarrow>
             case getRandomPosition rnd (Some k) size' s3 of (endPosition, s4) \<Rightarrow>
             case getRandomInRange rnd animationDurationRange_min animationDurationRange_max s4
               of (d, s5) \<Rightarrow>
             let s6 = assignStyle circleElement
                        \<lparr>style_width = size', style_height = size',
                         style_left = fst startPosition, style_top = snd startPosition\<rparr> s5;
                 s7 = ensureSet k s6;
                 s8 = trackCircle k circleElement s7;
                 s9 = animate circleElement startPosition endPosition (d * 1000) s8;
                 s10 = setOnfinish circleElement k s9
             in appendChild k circleElement s10))"

subsection \<open>createRandomCircles\<close>

text \<open>\<open>for (let i = 0; i < numberOfCircles; i++) createRandomCircle(...)\<close>\<close>

function createRandomCircles_loop ::
  "(nat \<Rightarrow> real) \<Rightarrow> container \<Rightarrow> int \<Rightarrow> int \<Rightarrow> state \<Rightarrow> state" where
  "createRandomCircles_loop rnd k i n s =
     (if i < n then createRandomCircles_loop rnd k (i + 1) n (createRandomCircle rnd (Some k) s)
      else s)"
  by pat_completeness auto
termination
  by (relation "measure (\<lambda>(rnd, k, i, n, s). nat (n - i))") auto

declare createRandomCircles_loop.simps [simp del]

definition createRandomCircles :: "(nat \<Rightarrow> real) \<Rightarrow> container option \<Rightarrow> state \<Rightarrow> state" where
  "createRandomCircles rnd containerElement s =
     (case containerElement of
        None \<Rightarrow> console_error ''Container element not found'' s
      | Some k \<Rightarrow>
          (case getRandomInRange rnd 1 maxCirclesPerContainer s of
             (numberOfCircles, s1) \<Rightarrow> createRandomCircles_loop rnd k 0 numberOfCircles s1))"

subsection \<open>The animation's onfinish handler\<close>

text \<open>\<open>circleElement.remove()\<close>\<close>

definition removeElement :: "circle \<Rightarrow> state \<Rightarrow> state" where
  "removeElement c s = s\<lparr>parentOf := (parentOf s)(c := None), calls := calls s @ [Remove c]\<rparr>"

text \<open>\<open>activeCircles.get(k)?.delete(c)\<close>\<close>

definition untrackCircle :: "container \<Rightarrow> circle \<Rightarrow> state \<Rightarrow> state" where
  "untrackCircle k c s =
     (case activeCircles s k of
        None \<Rightarrow> s
      | Some cs \<Rightarrow> s\<lparr>activeCircles := (activeCircles s)(k \<mapsto> set_delete c cs),
                     calls := calls s @ [SetDelete k c]\<rparr>)"

definition onfinish_handler :: "(nat \<Rightarrow> real) \<Rightarrow> circle \<Rightarrow> container \<Rightarrow> state \<Rightarrow> state" where
  "onfinish_handler rnd circleElement k s =
     createRandomCircle rnd (Some k) (untrackCircle k circleElement (removeElement circleElement s))"

text \<open>
  The animation engine finishing the animation of a circle: the animation (one iteration)
  is over, and its handler runs if one is set. Nothing happens for a circle that has no
  running animation.
\<close>

definition finishAnimation :: "(nat \<Rightarrow> real) \<Rightarrow> circle \<Rightarrow> state \<Rightarrow> state" where
  "finishAnimation rnd c s =
     (case animations s c of
        None \<Rightarrow> s
      | Some a \<Rightarrow>
          (case onfinish a of
             None \<Rightarrow> s\<lparr>animations := (animations s)(c := None)\<rparr>
           | Some k \<Rightarrow> onfinish_handler rnd c k (s\<lparr>animations := (animations s)(c := None)\<rparr>)))"

subsection \<open>initialize and its resize listener\<close>

text \<open>The page before the script runs: nothing tracked, created, drawn or logged.\<close>

definition page :: "(container \<Rightarrow> element) \<Rightarrow> state" where
  "page l =
     \<lparr>layout = l, activeCircles = Map.empty, parentOf = Map.empty, styles = Map.empty,
      animations = Map.empty, nextElement = 0, draws = 0, console = [], calls = []\<rparr>"

text \<open>
  The circle part of \<open>initialize\<close>: \<open>containers\<close> is the list of the three
  \<open>querySelector\<close> results, each of which may be \<open>null\<close>.
\<close>

definition initContainer :: "(nat \<Rightarrow> real) \<Rightarrow> container option \<Rightarrow> state \<Rightarrow> state" where
  "initContainer rnd containerElement s =
     (case containerElement of
        Some k \<Rightarrow> createRandomCircles rnd (Some k) s
      | None \<Rightarrow> console_warn ''Container element not found'' s)"

definition initialize :: "(nat \<Rightarrow> real) \<Rightarrow> container option list \<Rightarrow> state \<Rightarrow> state" where
  "initialize rnd containers s = fold (initContainer rnd) containers s"

text \<open>
  The body of the resize listener for one container: remove every tracked circle from
  the document, replace the set by a new empty one, seed again.
\<close>

definition resizeContainer :: "(nat \<Rightarrow> real) \<Rightarrow> container option \<Rightarrow> state \<Rightarrow> state" where
  "resizeContainer rnd containerElement s =
     (case containerElement of
        None \<Rightarrow> s
      | Some k \<Rightarrow>
          (case activeCircles s k of
             None \<Rightarrow> s
           | Some cs \<Rightarrow>
               let s1 = fold removeElement cs s;
                   s2 = s1\<lparr>activeCircles := (activeCircles s1)(k \<mapsto> []),
                           calls := calls s1 @ [MapSet k]\<rparr>
               in createRandomCircles rnd (Some k) s2))"

definition onresize :: "(nat \<Rightarrow> real) \<Rightarrow> container option list \<Rightarrow> state \<Rightarrow> state" where
  "onresize rnd containers s = fold (resizeContainer rnd) containers s"

subsection \<open>Everything that can happen to the page\<close>

text \<open>
  The calls of the two functions, the animation engine finishing an animation, the
  window's resize event, the browser laying a container out anew, and a call of
  \<open>Math.random()\<close> by another part of the script (\<open>initializeVideoBackground\<close> makes
  one).
\<close>

datatype event =
    SpawnCall "container option"
  | SeedCall "container option"
  | AnimationFinished circle
  | WindowResized
  | LayoutChanged container element
  | RandomDrawn

fun step :: "(nat \<Rightarrow> real) \<Rightarrow> container option list \<Rightarrow> event \<Rightarrow> state \<Rightarrow> state" where
  "step rnd containers (SpawnCall c) s = createRandomCircle rnd c s"
| "step rnd containers (SeedCall c) s = createRandomCircles rnd c s"
| "step rnd containers (AnimationFinished c) s = finishAnimation rnd c s"
| "step rnd containers WindowResized s = onresize rnd containers s"
| "step rnd containers (LayoutChanged k e) s = s\<lparr>layout := (layout s)(k := e)\<rparr>"
| "step rnd containers RandomDrawn s = snd (Math_random rnd s)"

fun run :: "(nat \<Rightarrow> real) \<Rightarrow> container option list \<Rightarrow> event list \<Rightarrow> state \<Rightarrow> state" where
  "run rnd containers [] s = s"
| "run rnd containers (e # es) s = run rnd containers es (step rnd containers e s)"

subsection \<open>Observations of a state\<close>

text \<open>The circles tracked for a container, none when the \<open>Map\<close> has no entry.\<close>

definition tracked :: "state \<Rightarrow> container \<Rightarrow> circle list" where
  "tracked s k = (case activeCircles s k of None \<Rightarrow> [] | Some cs \<Rightarrow> cs)"

text \<open>No container tracks more circles than the configured maximum.\<close>

definition cap_ok :: "state \<Rightarrow> bool" where
  "cap_ok s = (\<forall>k. int (active_count s k) \<le> maxCirclesPerContainer)"

text \<open>
  Every circle that is tracked or animated is an element that \<open>createElement\<close> has
  handed out, so that the next element it creates is a new one.
\<close>

definition fresh_ok :: "state \<Rightarrow> bool" where
  "fresh_ok s =
     ((\<forall>k. \<forall>c\<in>set (tracked s k). c < nextElement s)
      \<and> (\<forall>c. animations s c \<noteq> None \<longrightarrow> c < nextElement s))"

text \<open>Every circle attached to a container is tracked for that container.\<close>

definition attached_ok :: "state \<Rightarrow> bool" where
  "attached_ok s = (\<forall>c k. parentOf s c = Some k \<longrightarrow> c \<in> set (tracked s k))"

text \<open>Every running animation has its \<open>onfinish\<close> handler set.\<close>

definition handler_ok :: "state \<Rightarrow> bool" where
  "handler_ok s = (\<forall>c a. animations s c = Some a \<longrightarrow> onfinish a \<noteq> None)"

section \<open>Properties\<close>

subsection \<open>getRandomInRange\<close>

lemma floor_scaled_bounds:
  fixes r :: real and n :: int
  assumes "0 \<le> r" "r < 1" "1 \<le> n"
  shows "0 \<le> \<lfloor>r * of_int n\<rfloor>" "\<lfloor>r * of_int n\<rfloor> \<le> n - 1"
proof -
  have pos: "(0::real) < of_int n" using assms(3) by simp
  show "0 \<le> \<lfloor>r * of_int n\<rfloor>" using assms(1) pos by simp
  have "r * of_int n < of_int n" using assms(2) pos by simp
  then have "\<lfloor>r * of_int n\<rfloor> < n" by (simp add: floor_less_iff)
  then show "\<lfloor>r * of_int n\<rfloor> \<le> n - 1" by simp
qed

lemma getRandomInRange_eq:
  "getRandomInRange rnd mn mx s =
     (\<lfloor>rnd (draws s) * of_int (mx - mn + 1)\<rfloor> + mn, s\<lparr>draws := Suc (draws s)\<rparr>)"
  by (simp add: getRandomInRange_def Math_random_def)



subsection \<open>getRandomPosition on a container without dimensions\<close>

text \<open>
  Claim C6. When the container is \<open>null\<close>, or its \<open>clientWidth\<close> or \<open>clientHeight\<close>
  is missing or zero, \<open>getRandomPosition\<close> returns the position \<open>(0, 0)\<close>; it raises
  nothing, and its only effect is the warning it logs (no random number is drawn).
\<close>

theorem getRandomPosition_invalid:
  assumes "containerElement = None
         \<or> (\<exists>k. containerElement = Some k
              \<and> (clientWidth (layout s k) = None \<or> clientWidth (layout s k) = Some 0
                 \<or> clientHeight (layout s k) = None \<or> clientHeight (layout s k) = Some 0))"
  shows "getRandomPosition rnd containerElement size' s =
           ((0, 0), s\<lparr>console := console s @ [Warn ''Invalid container dimensions'']\<rparr>)"
  using assms
  by (auto simp: getRandomPosition_def invalid_dimensions_def console_warn_def)

theorem getRandomPosition_invalid_witness:
  "clientWidth (layout (page (\<lambda>k. \<lparr>clientWidth = Some 0, clientHeight = Some 200\<rparr>)) 7) = Some 0
   \<and> fst (getRandomPosition (\<lambda>n. 1 / 2) (Some 7) 40
            (page (\<lambda>k. \<lparr>clientWidth = Some 0, clientHeight = Some 200\<rparr>))) = (0, 0)
   \<and> console (snd (getRandomPosition (\<lambda>n. 1 / 2) (Some 7) 40
            (page (\<lambda>k. \<lparr>clientWidth = Some 0, clientHeight = Some 200\<rparr>))))
       = [Warn ''Invalid container dimensions'']"
  using getRandomPosition_invalid
          [of "Some 7" "page (\<lambda>k. \<lparr>clientWidth = Some 0, clientHeight = Some 200\<rparr>)"
              "\<lambda>n. 1 / 2" 40]
  by (simp add: page_def)

subsection \<open>createRandomCircle without a container\<close>

text \<open>
  Claim C7. Called with \<open>null\<close> or \<open>undefined\<close> for the container,
  \<open>createRandomCircle\<close> logs an error and returns: the state afterwards is the state
  before with the one message added to the console. The \<open>Map\<close> of active circles is
  the same, no element has been created, attached or animated, and no call into the DOM
  has been made.
\<close>

theorem createRandomCircle_null:
  "createRandomCircle rnd None s =
     s\<lparr>console := console s @ [Error ''Container element is null or undefined'']\<rparr>
   \<and> activeCircles (createRandomCircle rnd None s) = activeCircles s
   \<and> nextElement (createRandomCircle rnd None s) = nextElement s
   \<and> parentOf (createRandomCircle rnd None s) = parentOf s
   \<and> animations (createRandomCircle rnd None s) = animations s
   \<and> calls (createRandomCircle rnd None s) = calls s"
  by (simp add: createRandomCircle_def console_error_def)

subsection \<open>getRandomPosition on a container with dimensions\<close>

lemma floor_times4_cases:
  fixes r :: real
  assumes "0 \<le> r" "r < 1"
  shows "\<lfloor>r * 4\<rfloor> = 0 \<or> \<lfloor>r * 4\<rfloor> = 1 \<or> \<lfloor>r * 4\<rfloor> = 2 \<or> \<lfloor>r * 4\<rfloor> = 3"
proof -
  from floor_scaled_bounds[OF assms, of 4]
  have "0 \<le> \<lfloor>r * 4\<rfloor>" "\<lfloor>r * 4\<rfloor> \<le> 3" by simp_all
  then show ?thesis by arith
qed

text \<open>
  With both dimensions present and not zero, the function draws two numbers: the first
  selects the edge, the second the coordinate along it.
\<close>

lemma getRandomPosition_valid_eq:
  assumes "layout s k = \<lparr>clientWidth = Some W, clientHeight = Some H\<rparr>" "W \<noteq> 0" "H \<noteq> 0"
  shows "getRandomPosition rnd (Some k) S s =
     (let e = \<lfloor>rnd (draws s) * 4\<rfloor>;
          vx = \<lfloor>rnd (Suc (draws s)) * of_int (W - S + 1)\<rfloor>;
          vy = \<lfloor>rnd (Suc (draws s)) * of_int (H - S + 1)\<rfloor>;
          s2 = s\<lparr>draws := Suc (Suc (draws s))\<rparr>
      in if e = 0 then ((vx, - (S * offsetMultiplier)), s2)
         else if e = 1 then ((W + S * offsetMultiplier, vy), s2)
         else if e = 2 then ((vx, H + S * offsetMultiplier), s2)
         else if e = 3 then ((- (S * offsetMultiplier), vy), s2)
         else ((0, 0), s\<lparr>draws := Suc (draws s)\<rparr>))"
  using assms
  by (simp add: getRandomPosition_def invalid_dimensions_def Math_random_def
        getRandomInRange_eq Let_def)

text \<open>
  Claim C3, as amended. For a container of positive width \<open>W\<close> and height \<open>H\<close> and an
  object size \<open>S\<close> that is at most \<open>W\<close> and at most \<open>H\<close>, and random numbers in
  \<open>[0, 1)\<close>, \<open>getRandomPosition\<close> selects one of the four edges and returns, for the
  top edge, \<open>x\<close> in \<open>[0, W - S]\<close> and \<open>y = - S * offsetMultiplier\<close>; for the right edge,
  \<open>x = W + S * offsetMultiplier\<close> and \<open>y\<close> in \<open>[0, H - S]\<close>; for the bottom edge, \<open>x\<close> in
  \<open>[0, W - S]\<close> and \<open>y = H + S * offsetMultiplier\<close>; for the left edge,
  \<open>x = - S * offsetMultiplier\<close> and \<open>y\<close> in \<open>[0, H - S]\<close>.
\<close>

theorem getRandomPosition_on_edge:
  assumes "0 \<le> rnd (draws s)" "rnd (draws s) < 1"
      and "0 \<le> rnd (Suc (draws s))" "rnd (Suc (draws s)) < 1"
      and "layout s k = \<lparr>clientWidth = Some W, clientHeight = Some H\<rparr>"
      and "0 < W" "0 < H" "S \<le> W" "S \<le> H"
  shows "(\<lfloor>rnd (draws s) * 4\<rfloor> = 0
            \<and> 0 \<le> fst (fst (getRandomPosition rnd (Some k) S s))
            \<and> fst (fst (getRandomPosition rnd (Some k) S s)) \<le> W - S
            \<and> snd (fst (getRandomPosition rnd (Some k) S s)) = - (S * offsetMultiplier))
       \<or> (\<lfloor>rnd (draws s) * 4\<rfloor> = 1
            \<and> fst (fst (getRandomPosition rnd (Some k) S s)) = W + S * offsetMultiplier
            \<and> 0 \<le> snd (fst (getRandomPosition rnd (Some k) S s))
            \<and> snd (fst (getRandomPosition rnd (Some k) S s)) \<le> H - S)
       \<or> (\<lfloor>rnd (draws s) * 4\<rfloor> = 2
            \<and> 0 \<le> fst (fst (getRandomPosition rnd (Some k) S s))
            \<and> fst (fst (getRandomPosition rnd (Some k) S s)) \<le> W - S
            \<and> snd (fst (getRandomPosition rnd (Some k) S s)) = H + S * offsetMultiplier)
       \<or> (\<lfloor>rnd (draws s) * 4\<rfloor> = 3
            \<and> fst (fst (getRandomPosition rnd (Some k) S s)) = - (S * offsetMultiplier)
            \<and> 0 \<le> snd (fst (getRandomPosition rnd (Some k) S s))
            \<and> snd (fst (getRandomPosition rnd (Some k) S s)) \<le> H - S)"
proof -
  have W: "W \<noteq> 0" and H: "H \<noteq> 0" using assms(6,7) by simp_all
  have nx: "1 \<le> W - S + 1" and ny: "1 \<le> H - S + 1" using assms(8,9) by simp_all
  note bx = floor_scaled_bounds[OF assms(3) assms(4) nx]
  note by' = floor_scaled_bounds[OF assms(3) assms(4) ny]
  note eq = getRandomPosition_valid_eq[OF assms(5) W H, of rnd S]
  from floor_times4_cases[OF assms(1) assms(2)]
  consider "\<lfloor>rnd (draws s) * 4\<rfloor> = 0" | "\<lfloor>rnd (draws s) * 4\<rfloor> = 1"
    | "\<lfloor>rnd (draws s) * 4\<rfloor> = 2" | "\<lfloor>rnd (draws s) * 4\<rfloor> = 3" by blast
  then show ?thesis
  proof cases
    case 1 then show ?thesis using bx by (simp add: eq Let_def)
  next
    case 2 then show ?thesis using by' by (simp add: eq Let_def)
  next
    case 3 then show ?thesis using bx by (simp add: eq Let_def)
  next
    case 4 then show ?thesis using by' by (simp add: eq Let_def)
  qed
qed

theorem getRandomPosition_on_edge_witness:
  "(0::real) \<le> 1 / 2 \<and> (1::real) / 2 < 1
   \<and> layout (page (\<lambda>k. \<lparr>clientWidth = Some 300, clientHeight = Some 200\<rparr>)) 0
       = \<lparr>clientWidth = Some 300, clientHeight = Some 200\<rparr>
   \<and> (0::int) < 300 \<and> (0::int) < 200 \<and> (40::int) \<le> 300 \<and> (40::int) \<le> 200
   \<and> \<lfloor>(1::real) / 2 * 4\<rfloor> = 2
   \<and> fst (getRandomPosition (\<lambda>n. 1 / 2) (Some 0) 40
            (page (\<lambda>k. \<lparr>clientWidth = Some 300, clientHeight = Some 200\<rparr>))) = (130, 280)
   \<and> (0::int) \<le> 130 \<and> (130::int) \<le> 300 - 40 \<and> (280::int) = 200 + 40 * offsetMultiplier"
  using getRandomPosition_on_edge
          [of "\<lambda>n. 1 / 2" "page (\<lambda>k. \<lparr>clientWidth = Some 300, clientHeight = Some 200\<rparr>)"
              0 300 200 40]
  by (simp add: getRandomPosition_valid_eq[where W=300 and H=200] page_def
        offsetMultiplier_def Let_def)

text \<open>
  Without the bound on the size the statement fails. A circle of size 100 in a container
  of 50 by 50, with \<open>Math.random()\<close> returning one half: the bottom edge is selected and
  \<open>x\<close> is \<open>Math.floor(0.5 * -49) = -25\<close>, outside \<open>[0, W - S] = [0, -50]\<close>, which is
  empty.
\<close>

lemma oversized_position_value:
  "fst (getRandomPosition (\<lambda>n. 1 / 2) (Some 0) 100
          (page (\<lambda>k. \<lparr>clientWidth = Some 50, clientHeight = Some 50\<rparr>))) = (- 25, 250)"
  by (simp add: getRandomPosition_valid_eq[where W=50 and H=50] page_def
        offsetMultiplier_def Let_def)

theorem getRandomPosition_oversized_counterexample:
  "\<not> ((\<lfloor>(1::real) / 2 * 4\<rfloor> = 0
        \<and> 0 \<le> fst (fst (getRandomPosition (\<lambda>n. 1 / 2) (Some 0) 100
                  (page (\<lambda>k. \<lparr>clientWidth = Some 50, clientHeight = Some 50\<rparr>))))
        \<and> fst (fst (getRandomPosition (\<lambda>n. 1 / 2) (Some 0) 100
                  (page (\<lambda>k. \<lparr>clientWidth = Some 50, clientHeight = Some 50\<rparr>)))) \<le> 50 - 100
        \<and> snd (fst (getRandomPosition (\<lambda>n. 1 / 2) (Some 0) 100
                  (page (\<lambda>k. \<lparr>clientWidth = Some 50, clientHeight = Some 50\<rparr>))))
            = - (100 * offsetMultiplier))
     \<or> (\<lfloor>(1::real) / 2 * 4\<rfloor> = 1
        \<and> fst (fst (getRandomPosition (\<lambda>n. 1 / 2) (Some 0) 100
                  (page (\<lambda>k. \<lparr>clientWidth = Some 50, clientHeight = Some 50\<rparr>))))
            = 50 + 100 * offsetMultiplier
        \<and> 0 \<le> snd (fst (getRandomPosition (\<lambda>n. 1 / 2) (Some 0) 100
                  (page (\<lambda>k. \<lparr>clientWidth = Some 50, clientHeight = Some 50\<rparr>))))
        \<and> snd (fst (getRandomPosition (\<lambda>n. 1 / 2) (Some 0) 100
                  (page (\<lambda>k. \<lparr>clientWidth = Some 50, clientHeight = Some 50\<rparr>)))) \<le> 50 - 100)
     \<or> (\<lfloor>(1::real) / 2 * 4\<rfloor> = 2
        \<and> 0 \<le> fst (fst (getRandomPosition (\<lambda>n. 1 / 2) (Some 0) 100
                  (page (\<lambda>k. \<lparr>clientWidth = Some 50, clientHeight = Some 50\<rparr>))))
        \<and> fst (fst (getRandomPosition (\<lambda>n. 1 / 2) (Some 0) 100
                  (page (\<lambda>k. \<lparr>clientWidth = Some 50, clientHeight = Some 50\<rparr>)))) \<le> 50 - 100
        \<and> snd (fst (getRandomPosition (\<lambda>n. 1 / 2) (Some 0) 100
                  (page (\<lambda>k. \<lparr>clientWidth = Some 50, clientHeight = Some 50\<rparr>))))
            = 50 + 100 * offsetMultiplier)
     \<or> (\<lfloor>(1::real) / 2 * 4\<rfloor> = 3
        \<and> fst (fst (getRandomPosition (\<lambda>n. 1 / 2) (Some 0) 100
                  (page (\<lambda>k. \<lparr>clientWidth = Some 50, clientHeight = Some 50\<rparr>))))
            = - (100 * offsetMultiplier)
        \<and> 0 \<le> snd (fst (getRandomPosition (\<lambda>n. 1 / 2) (Some 0) 100
                  (page (\<lambda>k. \<lparr>clientWidth = Some 50, clientHeight = Some 50\<rparr>))))
        \<and> snd (fst (getRandomPosition (\<lambda>n. 1 / 2) (Some 0) 100
                  (page (\<lambda>k. \<lparr>clientWidth = Some 50, clientHeight = Some 50\<rparr>)))) \<le> 50 - 100))"
  by (simp add: getRandomPosition_valid_eq[where W=50 and H=50] page_def
        offsetMultiplier_def Let_def)

subsection \<open>The population cap\<close>

lemma getRandomInRange_frame [simp]:
  "layout (snd (getRandomInRange rnd a b s)) = layout s"
  "activeCircles (snd (getRandomInRange rnd a b s)) = activeCircles s"
  "parentOf (snd (getRandomInRange rnd a b s)) = parentOf s"
  "styles (snd (getRandomInRange rnd a b s)) = styles s"
  "animations (snd (getRandomInRange rnd a b s)) = animations s"
  "nextElement (snd (getRandomInRange rnd a b s)) = nextElement s"
  "console (snd (getRandomInRange rnd a b s)) = console s"
  "calls (snd (getRandomInRange rnd a b s)) = calls s"
  by (simp_all add: getRandomInRange_eq)

lemma getRandomPosition_frame [simp]:
  "layout (snd (getRandomPosition rnd c z s)) = layout s"
  "activeCircles (snd (getRandomPosition rnd c z s)) = activeCircles s"
  "parentOf (snd (getRandomPosition rnd c z s)) = parentOf s"
  "styles (snd (getRandomPosition rnd c z s)) = styles s"
  "animations (snd (getRandomPosition rnd c z s)) = animations s"
  "nextElement (snd (getRandomPosition rnd c z s)) = nextElement s"
  "calls (snd (getRandomPosition rnd c z s)) = calls s"
  by (simp_all add: getRandomPosition_def console_warn_def Math_random_def
        getRandomInRange_eq Let_def)

lemma spawn_activeCircles:
  "\<not> at_capacity s k \<Longrightarrow>
   activeCircles (createRandomCircle rnd (Some k) s) =
     (activeCircles s)(k \<mapsto> set_add (nextElement s) (tracked s k))"
  by (auto simp: createRandomCircle_def case_prod_beta Let_def appendChild_def setOnfinish_def
        animate_def trackCircle_def ensureSet_def assignStyle_def createElement_def tracked_def
        split: option.splits)

lemma spawn_nextElement:
  "\<not> at_capacity s k \<Longrightarrow>
   nextElement (createRandomCircle rnd (Some k) s) = Suc (nextElement s)"
  by (auto simp: createRandomCircle_def case_prod_beta Let_def appendChild_def setOnfinish_def
        animate_def trackCircle_def ensureSet_def assignStyle_def createElement_def
        split: option.splits)

lemma spawn_parentOf:
  "\<not> at_capacity s k \<Longrightarrow>
   parentOf (createRandomCircle rnd (Some k) s) = (parentOf s)(nextElement s \<mapsto> k)"
  by (auto simp: createRandomCircle_def case_prod_beta Let_def appendChild_def setOnfinish_def
        animate_def trackCircle_def ensureSet_def assignStyle_def createElement_def
        split: option.splits)

lemma spawn_calls:
  "\<not> at_capacity s k \<Longrightarrow>
   calls (createRandomCircle rnd (Some k) s) =
     calls s @ [CreateElement (nextElement s), AssignStyle (nextElement s)]
       @ (if activeCircles s k = None then [MapSet k] else [])
       @ [SetAdd k (nextElement s), Animate (nextElement s), SetOnfinish (nextElement s),
          AppendChild k (nextElement s)]"
  by (auto simp: createRandomCircle_def case_prod_beta Let_def appendChild_def setOnfinish_def
        animate_def trackCircle_def ensureSet_def assignStyle_def createElement_def
        split: option.splits)

lemma spawn_layout [simp]:
  "layout (createRandomCircle rnd c s) = layout s"
  by (auto simp: createRandomCircle_def case_prod_beta Let_def appendChild_def setOnfinish_def
        animate_def trackCircle_def ensureSet_def assignStyle_def createElement_def console_error_def
        split: option.splits)

lemma spawn_at_capacity: "at_capacity s k \<Longrightarrow> createRandomCircle rnd (Some k) s = s"
  by (simp add: createRandomCircle_def)

lemma at_capacity_iff: "at_capacity s k \<longleftrightarrow> maxCirclesPerContainer \<le> int (active_count s k)"
  by (simp add: at_capacity_def active_count_def maxCirclesPerContainer_def split: option.splits)

lemma active_count_tracked: "active_count s k = length (tracked s k)"
  by (simp add: active_count_def tracked_def split: option.splits)

lemma length_set_add: "length (set_add c cs) \<le> Suc (length cs)"
  by (simp add: set_add_def)

lemma length_set_delete: "length (set_delete c cs) \<le> length cs"
  by (simp add: set_delete_def)

lemma spawn_active_count_other:
  "k' \<noteq> k \<Longrightarrow> active_count (createRandomCircle rnd (Some k) s) k' = active_count s k'"
  by (cases "at_capacity s k")
     (simp_all add: spawn_at_capacity spawn_activeCircles active_count_def)

lemma spawn_active_count_le:
  "int (active_count s k) \<le> maxCirclesPerContainer \<Longrightarrow>
   int (active_count (createRandomCircle rnd (Some k) s) k) \<le> maxCirclesPerContainer"
proof (cases "at_capacity s k")
  case True
  assume "int (active_count s k) \<le> maxCirclesPerContainer"
  with True show ?thesis by (simp add: spawn_at_capacity)
next
  case False
  then have "int (length (tracked s k)) < maxCirclesPerContainer"
    by (simp add: at_capacity_iff active_count_tracked)
  moreover have "active_count (createRandomCircle rnd (Some k) s) k
      = length (set_add (nextElement s) (tracked s k))"
    using False by (simp add: spawn_activeCircles active_count_def)
  ultimately show ?thesis
    using length_set_add[of "nextElement s" "tracked s k"] by simp
qed

lemma spawn_cap_ok: "cap_ok s \<Longrightarrow> cap_ok (createRandomCircle rnd c s)"
proof (cases c)
  case None
  assume "cap_ok s"
  then show ?thesis using None
    by (simp add: cap_ok_def createRandomCircle_def console_error_def active_count_def)
next
  case (Some k)
  assume ok: "cap_ok s"
  show ?thesis unfolding cap_ok_def Some
  proof
    fix k'
    show "int (active_count (createRandomCircle rnd (Some k) s) k') \<le> maxCirclesPerContainer"
      using ok spawn_active_count_le[of s k rnd] spawn_active_count_other[of k' k rnd s]
      by (cases "k' = k") (simp_all add: cap_ok_def)
  qed
qed

lemma loop_cap_ok: "cap_ok s \<Longrightarrow> cap_ok (createRandomCircles_loop rnd k i n s)"
proof (induction rnd k i n s rule: createRandomCircles_loop.induct)
  case (1 rnd k i n s)
  show ?case
  proof (cases "i < n")
    case True
    with 1 show ?thesis
      by (subst createRandomCircles_loop.simps) (simp add: spawn_cap_ok)
  next
    case False
    with 1 show ?thesis by (subst createRandomCircles_loop.simps) simp
  qed
qed

lemma cap_ok_draws: "cap_ok (s\<lparr>draws := d\<rparr>) = cap_ok s"
  by (simp add: cap_ok_def active_count_def)

lemma cap_ok_console: "cap_ok (s\<lparr>console := m\<rparr>) = cap_ok s"
  by (simp add: cap_ok_def active_count_def)

lemma seed_cap_ok: "cap_ok s \<Longrightarrow> cap_ok (createRandomCircles rnd c s)"
  by (cases c)
     (simp_all add: createRandomCircles_def console_error_def cap_ok_console
        getRandomInRange_eq loop_cap_ok cap_ok_draws)

lemma cap_okD: "cap_ok s \<Longrightarrow> activeCircles s k = Some cs \<Longrightarrow> int (length cs) \<le> maxCirclesPerContainer"
  unfolding cap_ok_def active_count_def
  by (drule spec[of _ k]) simp

lemma untrack_cap_ok: "cap_ok s \<Longrightarrow> cap_ok (untrackCircle k c s)"
proof -
  assume ok: "cap_ok s"
  show ?thesis
  proof (cases "activeCircles s k")
    case None
    then show ?thesis using ok by (simp add: untrackCircle_def)
  next
    case (Some cs)
    have "int (length (set_delete c cs)) \<le> maxCirclesPerContainer"
      using cap_okD[OF ok Some] length_set_delete[of c cs] by simp
    then show ?thesis using ok Some
      by (simp add: untrackCircle_def cap_ok_def active_count_def)
  qed
qed

lemma removeElement_cap_ok: "cap_ok (removeElement c s) = cap_ok s"
  by (simp add: removeElement_def cap_ok_def active_count_def)

lemma cap_ok_animations: "cap_ok (s\<lparr>animations := m\<rparr>) = cap_ok s"
  by (simp add: cap_ok_def active_count_def)

lemma finish_cap_ok: "cap_ok s \<Longrightarrow> cap_ok (finishAnimation rnd c s)"
  by (simp add: finishAnimation_def onfinish_handler_def spawn_cap_ok untrack_cap_ok
        removeElement_cap_ok cap_ok_animations split: option.splits)

lemma fold_removeElement_activeCircles [simp]:
  "activeCircles (fold removeElement cs s) = activeCircles s"
  by (induction cs arbitrary: s) (simp_all add: removeElement_def)

lemma fold_removeElement_cap_ok: "cap_ok (fold removeElement cs s) = cap_ok s"
  by (simp add: cap_ok_def active_count_def)

lemma cap_ok_clear:
  "cap_ok t \<Longrightarrow> cap_ok (t\<lparr>activeCircles := (activeCircles t)(k \<mapsto> []), calls := m\<rparr>)"
  by (simp add: cap_ok_def active_count_def maxCirclesPerContainer_def)

lemma resizeContainer_cap_ok: "cap_ok s \<Longrightarrow> cap_ok (resizeContainer rnd c s)"
proof (cases c)
  case None
  assume "cap_ok s"
  then show ?thesis using None by (simp add: resizeContainer_def)
next
  case (Some k)
  assume ok: "cap_ok s"
  show ?thesis
  proof (cases "activeCircles s k")
    case None
    then show ?thesis using ok Some by (simp add: resizeContainer_def)
  next
    case (Some cs)
    have "cap_ok (fold removeElement cs s)" using ok by (simp add: fold_removeElement_cap_ok)
    from seed_cap_ok[OF cap_ok_clear[OF this]]
    show ?thesis using Some \<open>c = Some k\<close>
      by (simp only: resizeContainer_def Let_def option.case)
  qed
qed

lemma onresize_cap_ok: "cap_ok s \<Longrightarrow> cap_ok (onresize rnd cs s)"
  unfolding onresize_def
  by (induction cs arbitrary: s) (simp_all add: resizeContainer_cap_ok)

lemma cap_ok_layout: "cap_ok (s\<lparr>layout := m\<rparr>) = cap_ok s"
  by (simp add: cap_ok_def active_count_def)

lemma step_cap_ok: "cap_ok s \<Longrightarrow> cap_ok (step rnd cs e s)"
  by (cases e)
     (simp_all add: spawn_cap_ok seed_cap_ok finish_cap_ok onresize_cap_ok cap_ok_layout
        Math_random_def cap_ok_draws)

lemma run_cap_ok: "cap_ok s \<Longrightarrow> cap_ok (run rnd cs es s)"
  by (induction es arbitrary: s) (simp_all add: step_cap_ok)

lemma initialize_cap_ok: "cap_ok s \<Longrightarrow> cap_ok (initialize rnd cs s)"
  unfolding initialize_def
  by (induction cs arbitrary: s)
     (simp_all add: initContainer_def seed_cap_ok console_warn_def cap_ok_console
        split: option.splits)

lemma page_cap_ok: "cap_ok (page l)"
  by (simp add: cap_ok_def page_def active_count_def maxCirclesPerContainer_def)

lemma loop_unfold:
  "createRandomCircles_loop rnd k i n s =
     (if i < n then createRandomCircles_loop rnd k (i + 1) n (createRandomCircle rnd (Some k) s)
      else s)"
  by (rule createRandomCircles_loop.simps)

text \<open>
  Claim C1. In every state the page can reach from the initialisation, by any sequence
  of calls of \<open>createRandomCircle\<close> and \<open>createRandomCircles\<close>, finished animations,
  resize events, changes of layout and random draws made elsewhere, every container
  tracks at most
  \<open>maxCirclesPerContainer\<close> circles. And \<open>createRandomCircle\<close>, called for a container
  that tracks that many circles or more, returns with the state as it was: nothing is
  created, queued or logged.
\<close>

theorem population_cap:
  "int (active_count (run rnd containers es (initialize rnd containers (page l))) k)
     \<le> maxCirclesPerContainer
   \<and> (maxCirclesPerContainer \<le> int (active_count s k)
        \<longrightarrow> createRandomCircle rnd (Some k) s = s)"
proof -
  have "cap_ok (run rnd containers es (initialize rnd containers (page l)))"
    by (simp add: run_cap_ok initialize_cap_ok page_cap_ok)
  then show ?thesis
    by (simp add: cap_ok_def at_capacity_iff[symmetric] spawn_at_capacity)
qed

theorem population_cap_witness:
  "int (active_count
         (run (\<lambda>n. 9 / 10) [Some 0] [SpawnCall (Some 0)]
           (initialize (\<lambda>n. 9 / 10) [Some 0]
             (page (\<lambda>k. \<lparr>clientWidth = Some 300, clientHeight = Some 200\<rparr>)))) 0) = 5
   \<and> maxCirclesPerContainer
       \<le> int (active_count
                (initialize (\<lambda>n. 9 / 10) [Some 0]
                  (page (\<lambda>k. \<lparr>clientWidth = Some 300, clientHeight = Some 200\<rparr>))) 0)
   \<and> createRandomCircle (\<lambda>n. 9 / 10) (Some 0)
        (initialize (\<lambda>n. 9 / 10) [Some 0]
          (page (\<lambda>k. \<lparr>clientWidth = Some 300, clientHeight = Some 200\<rparr>)))
       = initialize (\<lambda>n. 9 / 10) [Some 0]
           (page (\<lambda>k. \<lparr>clientWidth = Some 300, clientHeight = Some 200\<rparr>))"
proof -
  have five: "active_count
      (initialize (\<lambda>n. 9 / 10) [Some 0]
        (page (\<lambda>k. \<lparr>clientWidth = Some 300, clientHeight = Some 200\<rparr>))) 0 = 5"
    by (simp add: initialize_def initContainer_def createRandomCircles_def getRandomInRange_eq
          loop_unfold spawn_activeCircles at_capacity_def spawn_nextElement
          maxCirclesPerContainer_def set_add_def page_def tracked_def active_count_def)
  show ?thesis
    using five
      population_cap
        [of "\<lambda>n. 9 / 10" "[Some 0]" "[SpawnCall (Some 0)]"
            "\<lambda>k. \<lparr>clientWidth = Some 300, clientHeight = Some 200\<rparr>" 0
            "initialize (\<lambda>n. 9 / 10) [Some 0]
               (page (\<lambda>k. \<lparr>clientWidth = Some 300, clientHeight = Some 200\<rparr>))"]
    by (simp add: maxCirclesPerContainer_def)
qed

subsection \<open>What a call of createRandomCircle leaves behind\<close>







lemma below_cap_iff: "int (active_count s k) < maxCirclesPerContainer \<longleftrightarrow> \<not> at_capacity s k"
  by (simp add: at_capacity_iff not_le)

lemma spawn_onfinish:
  "\<not> at_capacity s k \<Longrightarrow>
   \<exists>a. animations (createRandomCircle rnd (Some k) s) (nextElement s) = Some a
       \<and> onfinish a = Some k"
  by (simp add: createRandomCircle_def case_prod_beta Let_def appendChild_def setOnfinish_def
        animate_def trackCircle_def ensureSet_def assignStyle_def createElement_def)

lemma set_add_member: "c \<in> set (set_add c cs)"
  by (simp add: set_add_def)


lemma tracked_spawn:
  "\<not> at_capacity s k \<Longrightarrow>
   tracked (createRandomCircle rnd (Some k) s) k = set_add (nextElement s) (tracked s k)"
  by (simp add: tracked_def spawn_activeCircles)

text \<open>
  Claim C4. In every execution of \<open>createRandomCircle\<close> that creates a circle (the
  container is not \<open>null\<close> and tracks fewer circles than the maximum), the calls made
  are, in this order: creation of the element, assignment of its style, creation of the
  container's \<open>Set\<close> if there is none, addition of the circle to the \<open>Set\<close>, start of
  the animation, registration of the handler, attachment to the container. The circle is
  in the active set before its animation is started.
\<close>

theorem createRandomCircle_tracks_before_animating:
  assumes "int (active_count s k) < maxCirclesPerContainer"
  shows "calls (createRandomCircle rnd (Some k) s) =
           calls s @ [CreateElement (nextElement s), AssignStyle (nextElement s)]
             @ (if activeCircles s k = None then [MapSet k] else [])
             @ [SetAdd k (nextElement s), Animate (nextElement s),
                SetOnfinish (nextElement s), AppendChild k (nextElement s)]
       \<and> nextElement s \<in> set (tracked (createRandomCircle rnd (Some k) s) k)
       \<and> animations (createRandomCircle rnd (Some k) s) (nextElement s) \<noteq> None"
proof -
  have nc: "\<not> at_capacity s k" using assms by (simp add: below_cap_iff)
  from spawn_onfinish[OF nc, of rnd]
  have "animations (createRandomCircle rnd (Some k) s) (nextElement s) \<noteq> None" by auto
  then show ?thesis
    by (simp add: spawn_calls[OF nc] tracked_spawn[OF nc] set_add_member)
qed

theorem createRandomCircle_tracks_before_animating_witness:
  "int (active_count (page (\<lambda>k. \<lparr>clientWidth = Some 300, clientHeight = Some 200\<rparr>)) 0)
     < maxCirclesPerContainer
   \<and> calls (createRandomCircle (\<lambda>n. 1 / 2) (Some 0)
              (page (\<lambda>k. \<lparr>clientWidth = Some 300, clientHeight = Some 200\<rparr>)))
       = [CreateElement 0, AssignStyle 0, MapSet 0, SetAdd 0 0, Animate 0, SetOnfinish 0,
          AppendChild 0 0]
   \<and> tracked (createRandomCircle (\<lambda>n. 1 / 2) (Some 0)
              (page (\<lambda>k. \<lparr>clientWidth = Some 300, clientHeight = Some 200\<rparr>))) 0 = [0]"
proof -
  have nc: "\<not> at_capacity (page (\<lambda>k. \<lparr>clientWidth = Some 300, clientHeight = Some 200\<rparr>)) 0"
    by (simp add: at_capacity_def page_def)
  show ?thesis
    using createRandomCircle_tracks_before_animating
            [of "page (\<lambda>k. \<lparr>clientWidth = Some 300, clientHeight = Some 200\<rparr>)" 0 "\<lambda>n. 1 / 2"]
    by (simp add: tracked_spawn[OF nc] set_add_def)
       (simp add: page_def active_count_def tracked_def maxCirclesPerContainer_def)
qed



text \<open>
  Without the bound on the count the statement fails: after an initialisation that drew
  five circles for a container of width 0, a further call creates nothing.
\<close>

lemma layout_loop [simp]: "layout (createRandomCircles_loop rnd k i n s) = layout s"
proof (induction rnd k i n s rule: createRandomCircles_loop.induct)
  case (1 rnd k i n s)
  then show ?case by (subst createRandomCircles_loop.simps) simp
qed

lemma layout_seed [simp]: "layout (createRandomCircles rnd c s) = layout s"
  by (cases c) (simp_all add: createRandomCircles_def console_error_def getRandomInRange_eq)

lemma layout_initialize [simp]: "layout (initialize rnd cs s) = layout s"
  unfolding initialize_def
  by (induction cs arbitrary: s)
     (simp_all add: initContainer_def console_warn_def split: option.splits)


subsection \<open>createRandomCircles\<close>








subsection \<open>The end of an animation\<close>

lemma finish_cleanup_eq:
  "untrackCircle k c (removeElement c (s\<lparr>animations := (animations s)(c := None)\<rparr>)) =
     s\<lparr>parentOf := (parentOf s)(c := None),
       activeCircles := (case activeCircles s k of
                           None \<Rightarrow> activeCircles s
                         | Some cs \<Rightarrow> (activeCircles s)(k \<mapsto> set_delete c cs)),
       animations := (animations s)(c := None),
       calls := calls s @ Remove c #
                  (case activeCircles s k of None \<Rightarrow> [] | Some cs \<Rightarrow> [SetDelete k c])\<rparr>"
  by (simp add: untrackCircle_def removeElement_def split: option.splits)

lemma set_add_set: "set (set_add c cs) = insert c (set cs)"
  by (auto simp: set_add_def)

lemma set_delete_set: "set (set_delete c cs) = set cs - {c}"
  by (simp add: set_delete_def)

text \<open>
  Claim C2. When the animation of a circle \<open>c\<close> (an element created earlier) finishes
  and its handler captured the container \<open>k\<close>, what happens is exactly: \<open>c\<close> is
  removed from the document, \<open>c\<close> is deleted from the \<open>Set\<close> of \<open>k\<close> (when there is
  one), and then \<open>createRandomCircle\<close> is called once for \<open>k\<close> on the state so
  obtained. Afterwards \<open>c\<close> is neither displayed nor tracked, and the call has created
  a new circle for \<open>k\<close> if the remaining count was below the maximum, and has left the
  state alone otherwise.
\<close>

theorem onfinish_removes_then_spawns:
  assumes "animations s c = Some a" and "onfinish a = Some k" and "c < nextElement s"
  shows "finishAnimation rnd c s =
           createRandomCircle rnd (Some k)
             (s\<lparr>parentOf := (parentOf s)(c := None),
                activeCircles := (case activeCircles s k of
                                    None \<Rightarrow> activeCircles s
                                  | Some cs \<Rightarrow> (activeCircles s)(k \<mapsto> set_delete c cs)),
                animations := (animations s)(c := None),
                calls := calls s @ Remove c #
                           (case activeCircles s k of None \<Rightarrow> [] | Some cs \<Rightarrow> [SetDelete k c])\<rparr>)
       \<and> parentOf (finishAnimation rnd c s) c = None
       \<and> c \<notin> set (tracked (finishAnimation rnd c s) k)
       \<and> (if int (length (set_delete c (tracked s k))) < maxCirclesPerContainer
          then tracked (finishAnimation rnd c s) k
                 = set_add (nextElement s) (set_delete c (tracked s k))
               \<and> nextElement (finishAnimation rnd c s) = Suc (nextElement s)
          else tracked (finishAnimation rnd c s) k = set_delete c (tracked s k)
               \<and> nextElement (finishAnimation rnd c s) = nextElement s)"
proof -
  let ?mid = "s\<lparr>parentOf := (parentOf s)(c := None),
                activeCircles := (case activeCircles s k of
                                    None \<Rightarrow> activeCircles s
                                  | Some cs \<Rightarrow> (activeCircles s)(k \<mapsto> set_delete c cs)),
                animations := (animations s)(c := None),
                calls := calls s @ Remove c #
                           (case activeCircles s k of None \<Rightarrow> [] | Some cs \<Rightarrow> [SetDelete k c])\<rparr>"
  have eq: "finishAnimation rnd c s = createRandomCircle rnd (Some k) ?mid"
    using assms(1,2)
    by (simp only: finishAnimation_def onfinish_handler_def finish_cleanup_eq option.case)
  have mid_tracked: "tracked ?mid k = set_delete c (tracked s k)"
    by (simp add: tracked_def set_delete_def split: option.splits)
  have mid_parent: "parentOf ?mid c = None" by simp
  have mid_next: "nextElement ?mid = nextElement s" by simp
  have ne: "c \<noteq> nextElement s" using assms(3) by simp
  show ?thesis
  proof (cases "at_capacity ?mid k")
    case True
    then have big: "\<not> int (length (set_delete c (tracked s k))) < maxCirclesPerContainer"
      by (simp only: at_capacity_iff active_count_tracked mid_tracked not_less)
    have fin: "createRandomCircle rnd (Some k) ?mid = ?mid"
      by (rule spawn_at_capacity[OF True])
    show ?thesis
      unfolding eq fin using big mid_tracked
      by (simp add: set_delete_set)
  next
    case False
    then have small: "int (length (set_delete c (tracked s k))) < maxCirclesPerContainer"
      by (simp only: at_capacity_iff active_count_tracked mid_tracked not_le)
    show ?thesis
      unfolding eq using small ne
      by (simp add: tracked_spawn[OF False] spawn_parentOf[OF False] spawn_nextElement[OF False]
            mid_tracked set_add_set set_delete_set del: fun_upd_apply)
         (simp add: tracked_def set_delete_def split: option.splits)
  qed
qed

lemma first_circle_animation:
  "animations (createRandomCircle (\<lambda>n. 1 / 2) (Some 0)
      (page (\<lambda>k. \<lparr>clientWidth = Some 300, clientHeight = Some 200\<rparr>))) 0
   = Some \<lparr>keyframe_from = (123, 310), keyframe_to = (123, 310), duration = 8000,
           onfinish = Some 0\<rparr>"
  by (simp add: createRandomCircle_def at_capacity_def case_prod_beta Let_def appendChild_def
        setOnfinish_def animate_def trackCircle_def ensureSet_def assignStyle_def
        createElement_def getRandomPosition_valid_eq[where W=300 and H=200] getRandomInRange_eq
        page_def offsetMultiplier_def circleSizeRange_min_def circleSizeRange_max_def
        animationDurationRange_min_def animationDurationRange_max_def)

theorem onfinish_removes_then_spawns_witness:
  "animations (createRandomCircle (\<lambda>n. 1 / 2) (Some 0)
      (page (\<lambda>k. \<lparr>clientWidth = Some 300, clientHeight = Some 200\<rparr>))) 0
     = Some \<lparr>keyframe_from = (123, 310), keyframe_to = (123, 310), duration = 8000,
             onfinish = Some 0\<rparr>
   \<and> onfinish \<lparr>keyframe_from = (123, 310), keyframe_to = (123, 310), duration = 8000,
             onfinish = Some 0\<rparr> = Some 0
   \<and> 0 < nextElement (createRandomCircle (\<lambda>n. 1 / 2) (Some 0)
            (page (\<lambda>k. \<lparr>clientWidth = Some 300, clientHeight = Some 200\<rparr>)))
   \<and> parentOf (finishAnimation (\<lambda>n. 1 / 2) 0
          (createRandomCircle (\<lambda>n. 1 / 2) (Some 0)
            (page (\<lambda>k. \<lparr>clientWidth = Some 300, clientHeight = Some 200\<rparr>)))) 0 = None
   \<and> tracked (finishAnimation (\<lambda>n. 1 / 2) 0
          (createRandomCircle (\<lambda>n. 1 / 2) (Some 0)
            (page (\<lambda>k. \<lparr>clientWidth = Some 300, clientHeight = Some 200\<rparr>)))) 0 = [1]"
proof -
  have nc: "\<not> at_capacity (page (\<lambda>k. \<lparr>clientWidth = Some 300, clientHeight = Some 200\<rparr>)) 0"
    by (simp add: at_capacity_def page_def)
  have st: "nextElement (createRandomCircle (\<lambda>n. 1 / 2) (Some 0)
            (page (\<lambda>k. \<lparr>clientWidth = Some 300, clientHeight = Some 200\<rparr>))) = 1"
    "tracked (createRandomCircle (\<lambda>n. 1 / 2) (Some 0)
            (page (\<lambda>k. \<lparr>clientWidth = Some 300, clientHeight = Some 200\<rparr>))) 0 = [0]"
    by (simp_all add: spawn_nextElement[OF nc] tracked_spawn[OF nc] set_add_def)
       (simp_all add: page_def tracked_def)
  have created: "0 < nextElement (createRandomCircle (\<lambda>n. 1 / 2) (Some 0)
            (page (\<lambda>k. \<lparr>clientWidth = Some 300, clientHeight = Some 200\<rparr>)))"
    by (simp add: st)
  have handler: "onfinish \<lparr>keyframe_from = (123, 310), keyframe_to = (123, 310),
      duration = 8000, onfinish = Some 0\<rparr> = Some (0::nat)"
    by simp
  show ?thesis
    using first_circle_animation created
      onfinish_removes_then_spawns
        [OF first_circle_animation handler created, of "\<lambda>n. 1 / 2", THEN conjunct2]
    by (simp add: st set_delete_def set_add_def maxCirclesPerContainer_def)
qed

subsection \<open>Invariants of the reachable states\<close>

lemma tracked_spawn_other:
  "k' \<noteq> k \<Longrightarrow> tracked (createRandomCircle rnd (Some k) s) k' = tracked s k'"
  by (cases "at_capacity s k") (simp_all add: spawn_at_capacity spawn_activeCircles tracked_def)

lemma spawn_animations_dom:
  "\<not> at_capacity s k \<Longrightarrow>
   dom (animations (createRandomCircle rnd (Some k) s)) = insert (nextElement s) (dom (animations s))"
  by (cases "activeCircles s k")
     (simp_all add: createRandomCircle_def case_prod_beta Let_def appendChild_def setOnfinish_def
        animate_def trackCircle_def ensureSet_def assignStyle_def createElement_def)

lemma spawn_null_fields [simp]:
  "tracked (createRandomCircle rnd None s) k = tracked s k"
  "nextElement (createRandomCircle rnd None s) = nextElement s"
  "animations (createRandomCircle rnd None s) = animations s"
  "parentOf (createRandomCircle rnd None s) = parentOf s"
  by (simp_all add: createRandomCircle_def console_error_def tracked_def)

lemma spawn_nextElement_mono: "nextElement s \<le> nextElement (createRandomCircle rnd c s)"
proof (cases c)
  case None then show ?thesis by simp
next
  case (Some k) then show ?thesis
    by (cases "at_capacity s k") (simp_all add: spawn_at_capacity spawn_nextElement)
qed

lemma spawn_fresh_ok: "fresh_ok s \<Longrightarrow> fresh_ok (createRandomCircle rnd c s)"
proof (cases c)
  case None
  assume "fresh_ok s" then show ?thesis using None by (simp add: fresh_ok_def)
next
  case (Some k)
  assume ok: "fresh_ok s"
  show ?thesis
  proof (cases "at_capacity s k")
    case True then show ?thesis using ok Some by (simp add: spawn_at_capacity)
  next
    case False
    have tr: "c' < Suc (nextElement s)"
      if "c' \<in> set (tracked (createRandomCircle rnd (Some k) s) k')" for c' k'
    proof (cases "k' = k")
      case True
      with that have "c' = nextElement s \<or> c' \<in> set (tracked s k)"
        by (simp add: tracked_spawn[OF False] set_add_set)
      then show ?thesis using ok by (auto simp: fresh_ok_def less_Suc_eq)
    next
      case False
      with that have "c' \<in> set (tracked s k')" by (simp add: tracked_spawn_other)
      then show ?thesis using ok by (auto simp: fresh_ok_def less_Suc_eq)
    qed
    have "c' < Suc (nextElement s)"
      if "animations (createRandomCircle rnd (Some k) s) c' \<noteq> None" for c'
    proof -
      from that have "c' \<in> dom (animations (createRandomCircle rnd (Some k) s))"
        by (simp add: domIff)
      then have "c' = nextElement s \<or> animations s c' \<noteq> None"
        by (simp add: spawn_animations_dom[OF False] domIff)
      then show ?thesis using ok by (auto simp: fresh_ok_def less_Suc_eq)
    qed
    with tr show ?thesis
      unfolding Some fresh_ok_def spawn_nextElement[OF False] by blast
  qed
qed

lemma spawn_attached_ok: "attached_ok s \<Longrightarrow> attached_ok (createRandomCircle rnd c s)"
proof (cases c)
  case None
  assume "attached_ok s" then show ?thesis using None by (simp add: attached_ok_def)
next
  case (Some k)
  assume ok: "attached_ok s"
  show ?thesis
  proof (cases "at_capacity s k")
    case True then show ?thesis using ok Some by (simp add: spawn_at_capacity)
  next
    case False
    have "c' \<in> set (tracked (createRandomCircle rnd (Some k) s) k')"
      if "parentOf (createRandomCircle rnd (Some k) s) c' = Some k'" for c' k'
    proof (cases "c' = nextElement s")
      case True
      with that have "k' = k" by (simp add: spawn_parentOf[OF False])
      then show ?thesis using True by (simp add: tracked_spawn[OF False] set_add_set)
    next
      case ne: False
      with that have "parentOf s c' = Some k'" by (simp add: spawn_parentOf[OF False])
      then have "c' \<in> set (tracked s k')" using ok by (simp add: attached_ok_def)
      then show ?thesis
        by (cases "k' = k") (simp_all add: tracked_spawn[OF False] set_add_set tracked_spawn_other)
    qed
    then show ?thesis unfolding Some attached_ok_def by blast
  qed
qed

lemma loop_fresh_ok: "fresh_ok s \<Longrightarrow> fresh_ok (createRandomCircles_loop rnd k i n s)"
proof (induction rnd k i n s rule: createRandomCircles_loop.induct)
  case (1 rnd k i n s)
  then show ?case
    by (subst createRandomCircles_loop.simps) (simp add: spawn_fresh_ok)
qed

lemma loop_attached_ok: "attached_ok s \<Longrightarrow> attached_ok (createRandomCircles_loop rnd k i n s)"
proof (induction rnd k i n s rule: createRandomCircles_loop.induct)
  case (1 rnd k i n s)
  then show ?case
    by (subst createRandomCircles_loop.simps) (simp add: spawn_attached_ok)
qed

lemma fresh_ok_cong:
  "activeCircles t = activeCircles s \<Longrightarrow> animations t = animations s \<Longrightarrow>
   nextElement t = nextElement s \<Longrightarrow> fresh_ok t = fresh_ok s"
  by (simp add: fresh_ok_def tracked_def)

lemma attached_ok_cong:
  "activeCircles t = activeCircles s \<Longrightarrow> parentOf t = parentOf s \<Longrightarrow>
   attached_ok t = attached_ok s"
  by (simp add: attached_ok_def tracked_def)

lemma seed_fresh_ok: "fresh_ok s \<Longrightarrow> fresh_ok (createRandomCircles rnd c s)"
proof (cases c)
  case None
  assume "fresh_ok s"
  then show ?thesis using None
    by (simp add: createRandomCircles_def console_error_def
          fresh_ok_cong[of "s\<lparr>console := m\<rparr>" s for m])
next
  case (Some k)
  assume "fresh_ok s"
  then have "fresh_ok (s\<lparr>draws := Suc (draws s)\<rparr>)"
    by (simp add: fresh_ok_cong[of "s\<lparr>draws := d\<rparr>" s for d])
  then show ?thesis using Some
    by (simp add: createRandomCircles_def getRandomInRange_eq loop_fresh_ok)
qed

lemma seed_attached_ok: "attached_ok s \<Longrightarrow> attached_ok (createRandomCircles rnd c s)"
proof (cases c)
  case None
  assume "attached_ok s"
  then show ?thesis using None
    by (simp add: createRandomCircles_def console_error_def
          attached_ok_cong[of "s\<lparr>console := m\<rparr>" s for m])
next
  case (Some k)
  assume "attached_ok s"
  then have "attached_ok (s\<lparr>draws := Suc (draws s)\<rparr>)"
    by (simp add: attached_ok_cong[of "s\<lparr>draws := d\<rparr>" s for d])
  then show ?thesis using Some
    by (simp add: createRandomCircles_def getRandomInRange_eq loop_attached_ok)
qed

lemma cleanup_fresh_ok:
  assumes "fresh_ok s"
  shows "fresh_ok (untrackCircle k c (removeElement c (s\<lparr>animations := (animations s)(c := None)\<rparr>)))"
proof -
  have "c' < nextElement s"
    if "c' \<in> set (tracked (untrackCircle k c
          (removeElement c (s\<lparr>animations := (animations s)(c := None)\<rparr>))) k')" for c' k'
  proof -
    from that have "c' \<in> set (tracked s k')"
      by (auto simp: finish_cleanup_eq tracked_def set_delete_set split: option.splits if_splits)
    then show ?thesis using assms by (auto simp: fresh_ok_def)
  qed
  moreover have "c' < nextElement s"
    if "animations (untrackCircle k c
          (removeElement c (s\<lparr>animations := (animations s)(c := None)\<rparr>))) c' \<noteq> None" for c'
    using that assms by (auto simp: finish_cleanup_eq fresh_ok_def split: if_splits)
  moreover have "nextElement (untrackCircle k c
          (removeElement c (s\<lparr>animations := (animations s)(c := None)\<rparr>))) = nextElement s"
    by (simp add: finish_cleanup_eq)
  ultimately show ?thesis unfolding fresh_ok_def by auto
qed

lemma cleanup_attached_ok:
  assumes "attached_ok s"
  shows "attached_ok (untrackCircle k c (removeElement c (s\<lparr>animations := (animations s)(c := None)\<rparr>)))"
proof -
  have "c' \<in> set (tracked (untrackCircle k c
          (removeElement c (s\<lparr>animations := (animations s)(c := None)\<rparr>))) k')"
    if "parentOf (untrackCircle k c
          (removeElement c (s\<lparr>animations := (animations s)(c := None)\<rparr>))) c' = Some k'" for c' k'
  proof -
    from that have ne: "c' \<noteq> c" and "parentOf s c' = Some k'"
      by (auto simp: finish_cleanup_eq split: if_splits)
    then have "c' \<in> set (tracked s k')" using assms by (simp add: attached_ok_def)
    then show ?thesis using ne
      by (auto simp: finish_cleanup_eq tracked_def set_delete_set split: option.splits)
  qed
  then show ?thesis unfolding attached_ok_def by blast
qed

lemma finish_fresh_ok: "fresh_ok s \<Longrightarrow> fresh_ok (finishAnimation rnd c s)"
proof -
  assume ok: "fresh_ok s"
  have drop: "fresh_ok (s\<lparr>animations := (animations s)(c := None)\<rparr>)"
    using ok by (auto simp: fresh_ok_def tracked_def split: if_splits)
  show ?thesis
    using ok drop cleanup_fresh_ok[OF ok, of _ c]
    by (simp add: finishAnimation_def onfinish_handler_def spawn_fresh_ok split: option.splits)
qed

lemma finish_attached_ok: "attached_ok s \<Longrightarrow> attached_ok (finishAnimation rnd c s)"
proof -
  assume ok: "attached_ok s"
  have drop: "attached_ok (s\<lparr>animations := (animations s)(c := None)\<rparr>)"
    using ok by (simp add: attached_ok_cong[of "s\<lparr>animations := m\<rparr>" s for m])
  show ?thesis
    using ok drop cleanup_attached_ok[OF ok, of _ c]
    by (simp add: finishAnimation_def onfinish_handler_def spawn_attached_ok split: option.splits)
qed

lemma fold_removeElement_eq:
  "fold removeElement cs s =
     s\<lparr>parentOf := (\<lambda>c. if c \<in> set cs then None else parentOf s c),
       calls := calls s @ map Remove cs\<rparr>"
proof (induction cs arbitrary: s)
  case Nil
  show ?case by simp
next
  case (Cons c cs)
  have fe: "(\<lambda>c'. if c' \<in> set cs then None else parentOf (removeElement c s) c') =
        (\<lambda>c'. if c' = c \<or> c' \<in> set cs then None else parentOf s c')"
    by (auto simp: fun_eq_iff removeElement_def)
  have "fold removeElement (c # cs) s = fold removeElement cs (removeElement c s)"
    by simp
  also have "\<dots> = (removeElement c s)
      \<lparr>parentOf := (\<lambda>c'. if c' \<in> set cs then None else parentOf (removeElement c s) c'),
       calls := calls (removeElement c s) @ map Remove cs\<rparr>"
    by (rule Cons.IH)
  also have "\<dots> = s\<lparr>parentOf := (\<lambda>c'. if c' \<in> set (c # cs) then None else parentOf s c'),
       calls := calls s @ map Remove (c # cs)\<rparr>"
    by (simp add: removeElement_def fe)
  finally show ?case .
qed

lemma resizeContainer_eq:
  "activeCircles s k = Some cs \<Longrightarrow>
   resizeContainer rnd (Some k) s =
     createRandomCircles rnd (Some k)
       (s\<lparr>parentOf := (\<lambda>c. if c \<in> set cs then None else parentOf s c),
          activeCircles := (activeCircles s)(k \<mapsto> []),
          calls := calls s @ map Remove cs @ [MapSet k]\<rparr>)"
  by (simp add: resizeContainer_def Let_def fold_removeElement_eq)

lemma spawn_activeCircles_other:
  "k' \<noteq> k \<Longrightarrow> activeCircles (createRandomCircle rnd (Some k) s) k' = activeCircles s k'"
  by (cases "at_capacity s k") (simp_all add: spawn_at_capacity spawn_activeCircles)

lemma spawn_parentOf_old:
  "c < nextElement s \<Longrightarrow> parentOf (createRandomCircle rnd (Some k) s) c = parentOf s c"
  by (cases "at_capacity s k") (simp_all add: spawn_at_capacity spawn_parentOf)

lemma spawn_tracked_new:
  "c \<in> set (tracked (createRandomCircle rnd (Some k) s) k) \<Longrightarrow>
   c \<in> set (tracked s k) \<or> nextElement s \<le> c"
  by (cases "at_capacity s k") (auto simp: spawn_at_capacity tracked_spawn set_add_set)

lemma loop_nextElement_mono: "nextElement s \<le> nextElement (createRandomCircles_loop rnd k i n s)"
proof (induction rnd k i n s rule: createRandomCircles_loop.induct)
  case (1 rnd k i n s)
  show ?case
  proof (cases "i < n")
    case True
    with 1 have "nextElement (createRandomCircle rnd (Some k) s)
        \<le> nextElement (createRandomCircles_loop rnd k (i + 1) n (createRandomCircle rnd (Some k) s))"
      by simp
    with True spawn_nextElement_mono[of s rnd "Some k"] show ?thesis
      by (subst createRandomCircles_loop.simps) simp
  next
    case False
    then show ?thesis by (subst createRandomCircles_loop.simps) simp
  qed
qed

lemma loop_activeCircles_other:
  "k' \<noteq> k \<Longrightarrow> activeCircles (createRandomCircles_loop rnd k i n s) k' = activeCircles s k'"
proof (induction rnd k i n s rule: createRandomCircles_loop.induct)
  case (1 rnd k i n s)
  then show ?case
    by (subst createRandomCircles_loop.simps) (simp add: spawn_activeCircles_other)
qed

lemma loop_parentOf_old:
  "c < nextElement s \<Longrightarrow> parentOf (createRandomCircles_loop rnd k i n s) c = parentOf s c"
proof (induction rnd k i n s rule: createRandomCircles_loop.induct)
  case (1 rnd k i n s)
  show ?case
  proof (cases "i < n")
    case True
    have "c < nextElement (createRandomCircle rnd (Some k) s)"
      using "1.prems" spawn_nextElement_mono[of s rnd "Some k"] by simp
    with True 1 show ?thesis
      by (subst createRandomCircles_loop.simps) (simp add: spawn_parentOf_old)
  next
    case False
    then show ?thesis by (subst createRandomCircles_loop.simps) simp
  qed
qed

lemma loop_tracked_new:
  "c \<in> set (tracked (createRandomCircles_loop rnd k i n s) k) \<Longrightarrow>
   c \<in> set (tracked s k) \<or> nextElement s \<le> c"
proof (induction rnd k i n s rule: createRandomCircles_loop.induct)
  case (1 rnd k i n s)
  show ?case
  proof (cases "i < n")
    case True
    with "1.prems" have "c \<in> set (tracked (createRandomCircles_loop rnd k (i + 1) n
        (createRandomCircle rnd (Some k) s)) k)"
      by (subst (asm) createRandomCircles_loop.simps) simp
    with True "1.IH" have "c \<in> set (tracked (createRandomCircle rnd (Some k) s) k)
        \<or> nextElement (createRandomCircle rnd (Some k) s) \<le> c"
      by simp
    then show ?thesis
      using spawn_tracked_new[of c rnd k s] spawn_nextElement_mono[of s rnd "Some k"] by auto
  next
    case False
    with "1.prems" show ?thesis
      by (subst (asm) createRandomCircles_loop.simps) simp
  qed
qed

lemma seed_nextElement_mono: "nextElement s \<le> nextElement (createRandomCircles rnd c s)"
proof (cases c)
  case None
  then show ?thesis by (simp add: createRandomCircles_def console_error_def)
next
  case (Some k)
  show ?thesis
    using loop_nextElement_mono[of "s\<lparr>draws := Suc (draws s)\<rparr>" rnd k 0]
    by (simp add: Some createRandomCircles_def getRandomInRange_eq)
qed

lemma seed_activeCircles_other:
  "k' \<noteq> k \<Longrightarrow> activeCircles (createRandomCircles rnd (Some k) s) k' = activeCircles s k'"
  by (simp add: createRandomCircles_def getRandomInRange_eq loop_activeCircles_other)

lemma seed_parentOf_old:
  "c < nextElement s \<Longrightarrow> parentOf (createRandomCircles rnd (Some k) s) c = parentOf s c"
  by (simp add: createRandomCircles_def getRandomInRange_eq loop_parentOf_old)

lemma seed_tracked_new:
  "c \<in> set (tracked (createRandomCircles rnd (Some k) s) k) \<Longrightarrow>
   c \<in> set (tracked s k) \<or> nextElement s \<le> c"
  using loop_tracked_new[of c rnd k 0 _ "s\<lparr>draws := Suc (draws s)\<rparr>"]
  by (simp add: createRandomCircles_def getRandomInRange_eq tracked_def)

lemma resize_nextElement_mono: "nextElement s \<le> nextElement (resizeContainer rnd c s)"
proof (cases c)
  case None then show ?thesis by (simp add: resizeContainer_def)
next
  case (Some k)
  show ?thesis
  proof (cases "activeCircles s k")
    case None then show ?thesis using Some by (simp add: resizeContainer_def)
  next
    case (Some cs)
    show ?thesis
      unfolding \<open>c = Some k\<close> resizeContainer_eq[OF Some]
      by (rule order_trans[OF _ seed_nextElement_mono]) simp
  qed
qed

lemma resize_activeCircles_other:
  "c \<noteq> Some k \<Longrightarrow> activeCircles (resizeContainer rnd c s) k = activeCircles s k"
proof (cases c)
  case None then show ?thesis by (simp add: resizeContainer_def)
next
  case (Some k')
  assume "c \<noteq> Some k"
  with Some have ne: "k \<noteq> k'" by auto
  show ?thesis
  proof (cases "activeCircles s k'")
    case None then show ?thesis using Some by (simp add: resizeContainer_def)
  next
    case (Some cs)
    show ?thesis
      unfolding \<open>c = Some k'\<close> resizeContainer_eq[OF Some]
      using ne by (simp add: seed_activeCircles_other)
  qed
qed

lemma resize_tracked_new:
  assumes "activeCircles s k = Some cs"
      and "c \<in> set (tracked (resizeContainer rnd (Some k) s) k)"
  shows "nextElement s \<le> c"
proof -
  from assms(2) have "c \<in> set (tracked (createRandomCircles rnd (Some k)
       (s\<lparr>parentOf := (\<lambda>c. if c \<in> set cs then None else parentOf s c),
          activeCircles := (activeCircles s)(k \<mapsto> []),
          calls := calls s @ map Remove cs @ [MapSet k]\<rparr>)) k)"
    by (simp only: resizeContainer_eq[OF assms(1)])
  from seed_tracked_new[OF this] show ?thesis by (simp add: tracked_def)
qed

lemma resize_parentOf_old:
  assumes "c < nextElement s"
  shows "parentOf (resizeContainer rnd h s) c =
           (case h of
              None \<Rightarrow> parentOf s c
            | Some k \<Rightarrow> (case activeCircles s k of
                           None \<Rightarrow> parentOf s c
                         | Some cs \<Rightarrow> if c \<in> set cs then None else parentOf s c))"
proof (cases h)
  case None then show ?thesis by (simp add: resizeContainer_def)
next
  case (Some k)
  show ?thesis
  proof (cases "activeCircles s k")
    case None then show ?thesis using Some by (simp add: resizeContainer_def)
  next
    case (Some cs)
    show ?thesis
      unfolding \<open>h = Some k\<close> resizeContainer_eq[OF Some]
      using assms Some by (simp add: seed_parentOf_old)
  qed
qed

lemma resize_fresh_ok: "fresh_ok s \<Longrightarrow> fresh_ok (resizeContainer rnd h s)"
proof (cases h)
  case None
  assume "fresh_ok s" then show ?thesis using None by (simp add: resizeContainer_def)
next
  case (Some k)
  assume ok: "fresh_ok s"
  show ?thesis
  proof (cases "activeCircles s k")
    case None then show ?thesis using ok Some by (simp add: resizeContainer_def)
  next
    case (Some cs)
    have "fresh_ok (s\<lparr>parentOf := (\<lambda>c. if c \<in> set cs then None else parentOf s c),
          activeCircles := (activeCircles s)(k \<mapsto> []),
          calls := calls s @ map Remove cs @ [MapSet k]\<rparr>)"
      using ok by (auto simp: fresh_ok_def tracked_def split: if_splits)
    then show ?thesis
      unfolding \<open>h = Some k\<close> resizeContainer_eq[OF Some] by (rule seed_fresh_ok)
  qed
qed

lemma resize_attached_ok: "attached_ok s \<Longrightarrow> attached_ok (resizeContainer rnd h s)"
proof (cases h)
  case None
  assume "attached_ok s" then show ?thesis using None by (simp add: resizeContainer_def)
next
  case (Some k)
  assume ok: "attached_ok s"
  show ?thesis
  proof (cases "activeCircles s k")
    case None then show ?thesis using ok Some by (simp add: resizeContainer_def)
  next
    case (Some cs)
    have "attached_ok (s\<lparr>parentOf := (\<lambda>c. if c \<in> set cs then None else parentOf s c),
          activeCircles := (activeCircles s)(k \<mapsto> []),
          calls := calls s @ map Remove cs @ [MapSet k]\<rparr>)"
      unfolding attached_ok_def
    proof (intro allI impI)
      fix c k'
      assume "parentOf (s\<lparr>parentOf := (\<lambda>c. if c \<in> set cs then None else parentOf s c),
          activeCircles := (activeCircles s)(k \<mapsto> []),
          calls := calls s @ map Remove cs @ [MapSet k]\<rparr>) c = Some k'"
      then have nin: "c \<notin> set cs" and par: "parentOf s c = Some k'"
        by (simp_all split: if_splits)
      from par ok have tr: "c \<in> set (tracked s k')" by (simp add: attached_ok_def)
      with nin Some have "k' \<noteq> k" by (auto simp: tracked_def)
      with tr show "c \<in> set (tracked (s\<lparr>parentOf := (\<lambda>c. if c \<in> set cs then None else parentOf s c),
          activeCircles := (activeCircles s)(k \<mapsto> []),
          calls := calls s @ map Remove cs @ [MapSet k]\<rparr>) k')"
        by (simp add: tracked_def)
    qed
    then show ?thesis
      unfolding \<open>h = Some k\<close> resizeContainer_eq[OF Some] by (rule seed_attached_ok)
  qed
qed

lemma onresize_fresh_ok: "fresh_ok s \<Longrightarrow> fresh_ok (onresize rnd cs s)"
  unfolding onresize_def
  by (induction cs arbitrary: s) (simp_all add: resize_fresh_ok)

lemma onresize_attached_ok: "attached_ok s \<Longrightarrow> attached_ok (onresize rnd cs s)"
  unfolding onresize_def
  by (induction cs arbitrary: s) (simp_all add: resize_attached_ok)

lemma step_fresh_ok: "fresh_ok s \<Longrightarrow> fresh_ok (step rnd cs e s)"
  by (cases e)
     (simp_all add: spawn_fresh_ok seed_fresh_ok finish_fresh_ok onresize_fresh_ok
        Math_random_def fresh_ok_cong[of "s\<lparr>layout := m\<rparr>" s for m]
        fresh_ok_cong[of "s\<lparr>draws := d\<rparr>" s for d])

lemma step_attached_ok: "attached_ok s \<Longrightarrow> attached_ok (step rnd cs e s)"
  by (cases e)
     (simp_all add: spawn_attached_ok seed_attached_ok finish_attached_ok onresize_attached_ok
        Math_random_def attached_ok_cong[of "s\<lparr>layout := m\<rparr>" s for m]
        attached_ok_cong[of "s\<lparr>draws := d\<rparr>" s for d])

lemma run_fresh_ok: "fresh_ok s \<Longrightarrow> fresh_ok (run rnd cs es s)"
  by (induction es arbitrary: s) (simp_all add: step_fresh_ok)

lemma run_attached_ok: "attached_ok s \<Longrightarrow> attached_ok (run rnd cs es s)"
  by (induction es arbitrary: s) (simp_all add: step_attached_ok)

lemma initialize_fresh_ok: "fresh_ok s \<Longrightarrow> fresh_ok (initialize rnd cs s)"
  unfolding initialize_def
  by (induction cs arbitrary: s)
     (simp_all add: initContainer_def seed_fresh_ok console_warn_def
        fresh_ok_cong[of "s\<lparr>console := m\<rparr>" s for s m] split: option.splits)

lemma initialize_attached_ok: "attached_ok s \<Longrightarrow> attached_ok (initialize rnd cs s)"
  unfolding initialize_def
  by (induction cs arbitrary: s)
     (simp_all add: initContainer_def seed_attached_ok console_warn_def
        attached_ok_cong[of "s\<lparr>console := m\<rparr>" s for s m] split: option.splits)

lemma page_fresh_ok: "fresh_ok (page l)"
  by (simp add: fresh_ok_def page_def tracked_def)

lemma page_attached_ok: "attached_ok (page l)"
  by (simp add: attached_ok_def page_def)

text \<open>Every state the page reaches satisfies the three invariants.\<close>

lemma reachable_invariants:
  "cap_ok (run rnd containers es (initialize rnd containers (page l)))"
  "fresh_ok (run rnd containers es (initialize rnd containers (page l)))"
  "attached_ok (run rnd containers es (initialize rnd containers (page l)))"
  by (simp_all add: run_cap_ok initialize_cap_ok page_cap_ok run_fresh_ok initialize_fresh_ok
        page_fresh_ok run_attached_ok initialize_attached_ok page_attached_ok)

subsection \<open>The resize listener\<close>

lemma fresh_okD: "fresh_ok s \<Longrightarrow> c \<in> set (tracked s k) \<Longrightarrow> c < nextElement s"
  unfolding fresh_ok_def by blast

lemma resize_establish:
  assumes "activeCircles t k = Some cs" and "n0 \<le> nextElement t" and "\<forall>c\<in>set cs. c < n0"
  shows "(\<forall>c\<in>set (tracked (resizeContainer rnd (Some k) t) k). n0 \<le> c)
       \<and> (\<forall>c\<in>set cs. parentOf (resizeContainer rnd (Some k) t) c = None)"
proof (intro conjI ballI)
  fix c assume "c \<in> set (tracked (resizeContainer rnd (Some k) t) k)"
  from resize_tracked_new[OF assms(1) this] assms(2) show "n0 \<le> c" by simp
next
  fix c assume c: "c \<in> set cs"
  with assms(2,3) have "c < nextElement t" by auto
  from resize_parentOf_old[OF this, of rnd "Some k"] c assms(1)
  show "parentOf (resizeContainer rnd (Some k) t) c = None" by simp
qed

lemma resize_preserve:
  assumes "\<forall>c\<in>set (tracked t k). n0 \<le> c" and "\<forall>c\<in>set cs. parentOf t c = None"
      and "n0 \<le> nextElement t" and "\<forall>c\<in>set cs. c < n0"
  shows "(\<forall>c\<in>set (tracked (resizeContainer rnd h t) k). n0 \<le> c)
       \<and> (\<forall>c\<in>set cs. parentOf (resizeContainer rnd h t) c = None)"
proof (intro conjI ballI)
  fix c assume c: "c \<in> set (tracked (resizeContainer rnd h t) k)"
  show "n0 \<le> c"
  proof (cases "h = Some k")
    case True
    show ?thesis
    proof (cases "activeCircles t k")
      case None
      with c True assms(1) show ?thesis by (simp add: resizeContainer_def)
    next
      case (Some cs')
      from resize_tracked_new[OF Some] c True assms(3) show ?thesis by fastforce
    qed
  next
    case False
    then have "tracked (resizeContainer rnd h t) k = tracked t k"
      by (simp add: tracked_def resize_activeCircles_other)
    with c assms(1) show ?thesis by simp
  qed
next
  fix c assume c: "c \<in> set cs"
  with assms(3,4) have "c < nextElement t" by auto
  from resize_parentOf_old[OF this, of rnd h] c assms(2)
  show "parentOf (resizeContainer rnd h t) c = None"
    by (simp split: option.splits)
qed

lemma fold_resize_resets:
  assumes "\<forall>c\<in>set cs. c < n0" and "n0 \<le> nextElement t"
      and "((\<forall>c\<in>set (tracked t k). n0 \<le> c) \<and> (\<forall>c\<in>set cs. parentOf t c = None))
           \<or> (Some k \<in> set hs \<and> activeCircles t k = Some cs)"
  shows "(\<forall>c\<in>set (tracked (fold (resizeContainer rnd) hs t) k). n0 \<le> c)
       \<and> (\<forall>c\<in>set cs. parentOf (fold (resizeContainer rnd) hs t) c = None)"
  using assms(2,3)
proof (induction hs arbitrary: t)
  case Nil
  then show ?case by simp
next
  case (Cons h hs)
  have next1: "n0 \<le> nextElement (resizeContainer rnd h t)"
    using Cons.prems(1) resize_nextElement_mono[of t rnd h] by simp
  have "((\<forall>c\<in>set (tracked (resizeContainer rnd h t) k). n0 \<le> c)
          \<and> (\<forall>c\<in>set cs. parentOf (resizeContainer rnd h t) c = None))
        \<or> (Some k \<in> set hs \<and> activeCircles (resizeContainer rnd h t) k = Some cs)"
  proof (cases "(\<forall>c\<in>set (tracked t k). n0 \<le> c) \<and> (\<forall>c\<in>set cs. parentOf t c = None)")
    case True
    then show ?thesis
      using resize_preserve[of t k n0 cs rnd h] Cons.prems(1) assms(1) by blast
  next
    case False
    with Cons.prems(2) have mem: "Some k \<in> set (h # hs)" and act: "activeCircles t k = Some cs"
      by auto
    show ?thesis
    proof (cases "h = Some k")
      case True
      show ?thesis
        unfolding True
        by (rule disjI1) (rule resize_establish[OF act Cons.prems(1) assms(1)])
    next
      case False
      with mem have "Some k \<in> set hs" by auto
      moreover have "activeCircles (resizeContainer rnd h t) k = Some cs"
        using False act by (simp add: resize_activeCircles_other)
      ultimately show ?thesis by blast
    qed
  qed
  from Cons.IH[OF next1 this] show ?case by simp
qed

lemma layout_resize [simp]: "layout (resizeContainer rnd h s) = layout s"
  by (simp add: resizeContainer_def Let_def fold_removeElement_eq split: option.splits)

lemma layout_onresize [simp]: "layout (onresize rnd hs s) = layout s"
  unfolding onresize_def by (induction hs arbitrary: s) simp_all

text \<open>
  Claim C9. On a resize event, for each container \<open>k\<close> of the listener's list that has
  an entry in the \<open>Map\<close>, with \<open>cs\<close> the circles it tracks: the listener's body for
  \<open>k\<close> removes every circle of \<open>cs\<close> from the document, replaces the \<open>Set\<close> of \<open>k\<close>
  by an empty one and then calls \<open>createRandomCircles\<close> for \<open>k\<close>. When the listener
  has run, every circle of \<open>cs\<close> is detached, and every circle that \<open>k\<close> tracks or
  displays has been created during the listener's run, under the layout of that moment:
  none is left from before the resize. (The state before is one in which tracked and
  animated circles are created elements and attached circles are tracked, as in every
  reachable state.)
\<close>

theorem onresize_resets:
  assumes "fresh_ok s" and "attached_ok s"
      and "Some k \<in> set containers" and "activeCircles s k = Some cs"
  shows "resizeContainer rnd (Some k) s =
           createRandomCircles rnd (Some k)
             (s\<lparr>parentOf := (\<lambda>c. if c \<in> set cs then None else parentOf s c),
                activeCircles := (activeCircles s)(k \<mapsto> []),
                calls := calls s @ map Remove cs @ [MapSet k]\<rparr>)
       \<and> (\<forall>c\<in>set cs. parentOf (onresize rnd containers s) c = None)
       \<and> (\<forall>c. c \<in> set (tracked (onresize rnd containers s) k)
                \<or> parentOf (onresize rnd containers s) c = Some k
              \<longrightarrow> nextElement s \<le> c)
       \<and> layout (onresize rnd containers s) = layout s"
proof -
  have "tracked s k = cs" using assms(4) by (simp add: tracked_def)
  then have old: "\<forall>c\<in>set cs. c < nextElement s"
    using fresh_okD[OF assms(1), of _ k] by auto
  have res: "(\<forall>c\<in>set (tracked (onresize rnd containers s) k). nextElement s \<le> c)
       \<and> (\<forall>c\<in>set cs. parentOf (onresize rnd containers s) c = None)"
    unfolding onresize_def
    by (rule fold_resize_resets[OF old order_refl]) (simp add: assms(3,4))
  have att: "attached_ok (onresize rnd containers s)"
    by (rule onresize_attached_ok[OF assms(2)])
  have "nextElement s \<le> c"
    if "c \<in> set (tracked (onresize rnd containers s) k)
          \<or> parentOf (onresize rnd containers s) c = Some k" for c
    using that res att by (auto simp: attached_ok_def)
  with res show ?thesis
    by (simp add: resizeContainer_eq[OF assms(4)])
qed

theorem onresize_resets_witness:
  "fresh_ok (initialize (\<lambda>n. 1 / 2) [Some 0]
      (page (\<lambda>k. \<lparr>clientWidth = Some 300, clientHeight = Some 200\<rparr>)))
   \<and> attached_ok (initialize (\<lambda>n. 1 / 2) [Some 0]
      (page (\<lambda>k. \<lparr>clientWidth = Some 300, clientHeight = Some 200\<rparr>)))
   \<and> Some 0 \<in> set [Some (0::nat)]
   \<and> activeCircles (initialize (\<lambda>n. 1 / 2) [Some 0]
      (page (\<lambda>k. \<lparr>clientWidth = Some 300, clientHeight = Some 200\<rparr>))) 0 = Some [0, 1, 2]
   \<and> nextElement (initialize (\<lambda>n. 1 / 2) [Some 0]
      (page (\<lambda>k. \<lparr>clientWidth = Some 300, clientHeight = Some 200\<rparr>))) = 3
   \<and> parentOf (onresize (\<lambda>n. 1 / 2) [Some 0] (initialize (\<lambda>n. 1 / 2) [Some 0]
      (page (\<lambda>k. \<lparr>clientWidth = Some 300, clientHeight = Some 200\<rparr>)))) 0 = None
   \<and> parentOf (onresize (\<lambda>n. 1 / 2) [Some 0] (initialize (\<lambda>n. 1 / 2) [Some 0]
      (page (\<lambda>k. \<lparr>clientWidth = Some 300, clientHeight = Some 200\<rparr>)))) 1 = None
   \<and> parentOf (onresize (\<lambda>n. 1 / 2) [Some 0] (initialize (\<lambda>n. 1 / 2) [Some 0]
      (page (\<lambda>k. \<lparr>clientWidth = Some 300, clientHeight = Some 200\<rparr>)))) 2 = None
   \<and> tracked (onresize (\<lambda>n. 1 / 2) [Some 0] (initialize (\<lambda>n. 1 / 2) [Some 0]
      (page (\<lambda>k. \<lparr>clientWidth = Some 300, clientHeight = Some 200\<rparr>)))) 0 = [3, 4, 5]"
proof -
  let ?S = "initialize (\<lambda>n. 1 / 2) [Some 0]
      (page (\<lambda>k. \<lparr>clientWidth = Some 300, clientHeight = Some 200\<rparr>))"
  have fr: "fresh_ok ?S" by (simp add: initialize_fresh_ok page_fresh_ok)
  have at: "attached_ok ?S" by (simp add: initialize_attached_ok page_attached_ok)
  have mem: "Some 0 \<in> set [Some (0::nat)]" by simp
  have act: "activeCircles ?S 0 = Some [0, 1, 2]"
    by (simp add: initialize_def initContainer_def createRandomCircles_def getRandomInRange_eq
          loop_unfold spawn_activeCircles at_capacity_def spawn_nextElement
          maxCirclesPerContainer_def set_add_def page_def tracked_def)
  have nxt: "nextElement ?S = 3"
    by (simp add: initialize_def initContainer_def createRandomCircles_def getRandomInRange_eq
          loop_unfold spawn_activeCircles at_capacity_def spawn_nextElement
          maxCirclesPerContainer_def set_add_def page_def tracked_def)
  have new: "tracked (onresize (\<lambda>n. 1 / 2) [Some 0] ?S) 0 = [3, 4, 5]"
    by (simp add: onresize_def resizeContainer_eq[OF act] createRandomCircles_def
          getRandomInRange_eq loop_unfold spawn_activeCircles at_capacity_def spawn_nextElement
          maxCirclesPerContainer_def set_add_def tracked_def nxt)
  show ?thesis
    using fr at act nxt new
      onresize_resets[OF fr at mem act, of "\<lambda>n. 1 / 2", THEN conjunct2, THEN conjunct1]
    by simp
qed

subsection \<open>Handlers of the running animations\<close>

lemma handler_ok_cong: "animations t = animations s \<Longrightarrow> handler_ok t = handler_ok s"
  by (simp add: handler_ok_def)

lemma spawn_animations_old:
  "\<not> at_capacity s k \<Longrightarrow> c \<noteq> nextElement s \<Longrightarrow>
   animations (createRandomCircle rnd (Some k) s) c = animations s c"
  by (cases "activeCircles s k")
     (simp_all add: createRandomCircle_def case_prod_beta Let_def appendChild_def setOnfinish_def
        animate_def trackCircle_def ensureSet_def assignStyle_def createElement_def)

lemma spawn_handler_ok: "handler_ok s \<Longrightarrow> handler_ok (createRandomCircle rnd c s)"
proof (cases c)
  case None
  assume "handler_ok s" then show ?thesis using None by (simp add: handler_ok_def)
next
  case (Some k)
  assume ok: "handler_ok s"
  show ?thesis
  proof (cases "at_capacity s k")
    case True then show ?thesis using ok Some by (simp add: spawn_at_capacity)
  next
    case False
    have "onfinish a \<noteq> None"
      if "animations (createRandomCircle rnd (Some k) s) c' = Some a" for c' a
    proof (cases "c' = nextElement s")
      case True
      with that spawn_onfinish[OF False, of rnd] show ?thesis by auto
    next
      case ne: False
      with that have "animations s c' = Some a" by (simp add: spawn_animations_old[OF False])
      with ok show ?thesis by (simp add: handler_ok_def)
    qed
    then show ?thesis unfolding Some handler_ok_def by blast
  qed
qed

lemma loop_handler_ok: "handler_ok s \<Longrightarrow> handler_ok (createRandomCircles_loop rnd k i n s)"
proof (induction rnd k i n s rule: createRandomCircles_loop.induct)
  case (1 rnd k i n s)
  then show ?case
    by (subst createRandomCircles_loop.simps) (simp add: spawn_handler_ok)
qed

lemma seed_handler_ok: "handler_ok s \<Longrightarrow> handler_ok (createRandomCircles rnd c s)"
proof (cases c)
  case None
  assume "handler_ok s"
  then show ?thesis using None
    by (simp add: createRandomCircles_def console_error_def
          handler_ok_cong[of "s\<lparr>console := m\<rparr>" s for m])
next
  case (Some k)
  assume "handler_ok s"
  then have "handler_ok (s\<lparr>draws := Suc (draws s)\<rparr>)"
    by (simp add: handler_ok_cong[of "s\<lparr>draws := d\<rparr>" s for d])
  then show ?thesis using Some
    by (simp add: createRandomCircles_def getRandomInRange_eq loop_handler_ok)
qed

lemma finish_handler_ok: "handler_ok s \<Longrightarrow> handler_ok (finishAnimation rnd c s)"
proof -
  assume ok: "handler_ok s"
  have drop: "handler_ok (s\<lparr>animations := (animations s)(c := None)\<rparr>)"
    using ok by (simp add: handler_ok_def)
  then have "handler_ok (untrackCircle k c
      (removeElement c (s\<lparr>animations := (animations s)(c := None)\<rparr>)))" for k
    by (simp add: finish_cleanup_eq handler_ok_def)
  then show ?thesis
    using ok drop
    by (simp add: finishAnimation_def onfinish_handler_def spawn_handler_ok split: option.splits)
qed

lemma resize_handler_ok: "handler_ok s \<Longrightarrow> handler_ok (resizeContainer rnd h s)"
proof (cases h)
  case None
  assume "handler_ok s" then show ?thesis using None by (simp add: resizeContainer_def)
next
  case (Some k)
  assume ok: "handler_ok s"
  show ?thesis
  proof (cases "activeCircles s k")
    case None then show ?thesis using ok Some by (simp add: resizeContainer_def)
  next
    case (Some cs)
    have "handler_ok (s\<lparr>parentOf := (\<lambda>c. if c \<in> set cs then None else parentOf s c),
          activeCircles := (activeCircles s)(k \<mapsto> []),
          calls := calls s @ map Remove cs @ [MapSet k]\<rparr>)"
      using ok by (simp add: handler_ok_def)
    then show ?thesis
      unfolding \<open>h = Some k\<close> resizeContainer_eq[OF Some] by (rule seed_handler_ok)
  qed
qed

lemma onresize_handler_ok: "handler_ok s \<Longrightarrow> handler_ok (onresize rnd cs s)"
  unfolding onresize_def
  by (induction cs arbitrary: s) (simp_all add: resize_handler_ok)

lemma step_handler_ok: "handler_ok s \<Longrightarrow> handler_ok (step rnd cs e s)"
  by (cases e)
     (simp_all add: spawn_handler_ok seed_handler_ok finish_handler_ok onresize_handler_ok
        Math_random_def handler_ok_cong[of "s\<lparr>layout := m\<rparr>" s for m]
        handler_ok_cong[of "s\<lparr>draws := d\<rparr>" s for d])

lemma run_handler_ok: "handler_ok s \<Longrightarrow> handler_ok (run rnd cs es s)"
  by (induction es arbitrary: s) (simp_all add: step_handler_ok)

lemma initialize_handler_ok: "handler_ok s \<Longrightarrow> handler_ok (initialize rnd cs s)"
  unfolding initialize_def
  by (induction cs arbitrary: s)
     (simp_all add: initContainer_def seed_handler_ok console_warn_def
        handler_ok_cong[of "s\<lparr>console := m\<rparr>" s for s m] split: option.splits)

lemma page_handler_ok: "handler_ok (page l)"
  by (simp add: handler_ok_def page_def)

text \<open>
  In a reachable state, an animation that finishes belongs to a created element and has
  a handler, and a newly created element is tracked nowhere: the premises of the theorems
  above on the state hold there.
\<close>

lemma reachable_animation:
  assumes "animations (run rnd containers es (initialize rnd containers (page l))) c = Some a"
  shows "c < nextElement (run rnd containers es (initialize rnd containers (page l)))"
    and "onfinish a \<noteq> None"
proof -
  have "fresh_ok (run rnd containers es (initialize rnd containers (page l)))"
    by (rule reachable_invariants)
  then show "c < nextElement (run rnd containers es (initialize rnd containers (page l)))"
    using assms unfolding fresh_ok_def by blast
  have "handler_ok (run rnd containers es (initialize rnd containers (page l)))"
    by (simp add: run_handler_ok initialize_handler_ok page_handler_ok)
  then show "onfinish a \<noteq> None"
    using assms unfolding handler_ok_def by blast
qed

lemma reachable_new_element:
  "nextElement (run rnd containers es (initialize rnd containers (page l)))
     \<notin> set (tracked (run rnd containers es (initialize rnd containers (page l))) k)"
  using fresh_okD[OF reachable_invariants(2), of _ rnd containers es l k] by auto

end
